theory Spec2Isabelle
  imports Main "HOL-Library.Sublist"
begin


section \<open>Strings, exceptions and calendar dates\<close>

text \<open>
  A Python \<open>str\<close> is a sequence of Unicode code points; it is modelled as a list of
  code points, so that \<open>in\<close>, \<open>strip\<close> and \<open>len\<close> count what Python counts.
  \<open>ascii\<close> turns an ASCII literal into such a list.
\<close>

type_synonym pystr = "nat list"

definition ascii :: "string \<Rightarrow> pystr" where
  "ascii s = map of_char s"

text \<open>The exceptions that the modelled code can meet.\<close>

datatype exn =
    ValueError
  | OverflowError
  | IndexError
  | TimeoutException
  | NoSuchElementException
  | WebDriverException

text \<open>
  \<open>str.isspace\<close> for one code point: the white space table of CPython
  (\<open>_PyUnicode_IsWhitespace\<close>), which is what \<open>str.strip()\<close> without an argument removes.
\<close>

definition isspace :: "nat \<Rightarrow> bool" where
  "isspace c \<longleftrightarrow>
     (9 \<le> c \<and> c \<le> 13) \<or> (28 \<le> c \<and> c \<le> 32) \<or> c = 133 \<or> c = 160 \<or> c = 5760 \<or>
     (8192 \<le> c \<and> c \<le> 8202) \<or> c = 8232 \<or> c = 8233 \<or> c = 8239 \<or> c = 8287 \<or> c = 12288"

definition strip :: "pystr \<Rightarrow> pystr" where
  "strip s = rev (dropWhile isspace (rev (dropWhile isspace s)))"

text \<open>
  The text form \<open>YYYY-MM-DD\<close> of a date and the \<open>datetime\<close> value that \<open>strptime\<close>
  reads from it (time of day zero) carry the same three numbers; both are the record
  \<open>pydate\<close>. What is left of \<open>datetime.strptime(s, '%Y-%m-%d')\<close> is its check that the
  numbers are a date of the calendar, with \<open>ValueError\<close> otherwise, and
  \<open>strftime('%Y-%m-%d')\<close> is the identity. For the years from 1000 on that is the text
  \<open>strftime\<close> writes everywhere; for an earlier year the text depends on the C library
  (some do not pad the year to four digits), and a \<open>pydate\<close> in a generated list then
  stands for the date the text was written from.
\<close>

record pydate =
  year :: int
  month :: int
  day :: int

definition is_leap :: "int \<Rightarrow> bool" where
  "is_leap y \<longleftrightarrow> y mod 4 = 0 \<and> (y mod 100 \<noteq> 0 \<or> y mod 400 = 0)"

definition days_in_month :: "int \<Rightarrow> int \<Rightarrow> int" where
  "days_in_month y m =
     (if m = 2 then (if is_leap y then 29 else 28)
      else if m = 4 \<or> m = 6 \<or> m = 9 \<or> m = 11 then 30 else 31)"

definition MINYEAR :: int where "MINYEAR = 1"
definition MAXYEAR :: int where "MAXYEAR = 9999"

definition valid_date :: "pydate \<Rightarrow> bool" where
  "valid_date d \<longleftrightarrow>
     MINYEAR \<le> year d \<and> year d \<le> MAXYEAR \<and> 1 \<le> month d \<and> month d \<le> 12 \<and>
     1 \<le> day d \<and> day d \<le> days_in_month (year d) (month d)"

definition strptime :: "pydate \<Rightarrow> exn + pydate" where
  "strptime s = (if valid_date s then Inr s else Inl ValueError)"

text \<open>Comparison of two \<open>datetime\<close> values: year, then month, then day.\<close>

definition date_le :: "pydate \<Rightarrow> pydate \<Rightarrow> bool" where
  "date_le a b \<longleftrightarrow>
     year a < year b \<or>
     (year a = year b \<and> (month a < month b \<or> (month a = month b \<and> day a \<le> day b)))"

definition date_less :: "pydate \<Rightarrow> pydate \<Rightarrow> bool" where
  "date_less a b \<longleftrightarrow> date_le a b \<and> a \<noteq> b"

text \<open>
  \<open>current + timedelta(days=1)\<close>: the day number goes up by one and is carried into the
  month and the year; a year beyond \<open>MAXYEAR\<close> is \<open>OverflowError\<close> (date value out of
  range).
\<close>

definition add_one_day :: "pydate \<Rightarrow> exn + pydate" where
  "add_one_day d =
     (let r = (if day d < days_in_month (year d) (month d) then d\<lparr>day := day d + 1\<rparr>
               else if month d < 12 then d\<lparr>month := month d + 1, day := 1\<rparr>
               else d\<lparr>year := year d + 1, month := 1, day := 1\<rparr>)
      in if year r \<le> MAXYEAR then Inr r else Inl OverflowError)"

subsection \<open>\<open>generate_dates\<close> and \<open>generate_content\<close>\<close>

text \<open>The \<open>while current <= end\<close> loop of \<open>generate_dates\<close>, with the list built so far.\<close>

function dates_loop :: "pydate \<Rightarrow> pydate \<Rightarrow> pydate list \<Rightarrow> exn + pydate list" where
  "dates_loop current end_d dates =
     (if date_le current end_d
      then (case add_one_day current of
              Inl e \<Rightarrow> Inl e
            | Inr nxt \<Rightarrow> dates_loop nxt end_d (dates @ [current]))
      else Inr dates)"
  by pat_completeness auto
termination
proof (relation "measures [\<lambda>(c, e, ds). nat (year e + 1 - year c),
                           \<lambda>(c, e, ds). nat (12 - month c),
                           \<lambda>(c, e, ds). nat (31 - day c)]", goal_cases)
  case 1
  show ?case by simp
next
  case (2 current end_d dates nxt)
  have dim: "days_in_month (year current) (month current) \<le> 31"
    by (simp add: days_in_month_def)
  from 2 show ?case using dim
    by (auto simp: add_one_day_def date_le_def Let_def split: if_splits)
qed

declare dates_loop.simps [simp del]

definition generate_dates :: "pydate \<Rightarrow> pydate \<Rightarrow> exn + pydate list" where
  "generate_dates start_date end_date =
     (case strptime start_date of
        Inl e \<Rightarrow> Inl e
      | Inr start \<Rightarrow>
          (case strptime end_date of
             Inl e \<Rightarrow> Inl e
           | Inr end_d \<Rightarrow> dates_loop start end_d []))"

definition generate_content :: "pystr \<Rightarrow> int \<Rightarrow> pystr" where
  "generate_content base_content index = strip base_content"

subsection \<open>The domestic-era date text\<close>

text \<open>Decimal digits of a natural number, as code points.\<close>

fun dec :: "nat \<Rightarrow> pystr" where
  "dec n = (if n < 10 then [48 + n] else dec (n div 10) @ [48 + n mod 10])"

declare dec.simps [simp del]

text \<open>
  The format specification \<open>0wd\<close> of an f-string: decimal, padded with zeros after the sign
  to at least \<open>w\<close> characters.
\<close>

definition format_0d :: "nat \<Rightarrow> int \<Rightarrow> pystr" where
  "format_0d w i =
     (if i < 0 then 45 # replicate (w - 1 - length (dec (nat (- i)))) 48 @ dec (nat (- i))
      else replicate (w - length (dec (nat i))) 48 @ dec (nat i))"

text \<open>
  Lines 964 to 966 of \<open>fill_journal_entry\<close>: \<open>roc_year = date_obj.year - 1911\<close> and
  \<open>formatted_date = f"{roc_year:03d}{date_obj.month:02d}{date_obj.day:02d}"\<close>.
\<close>

definition formatted_date :: "pydate \<Rightarrow> pystr" where
  "formatted_date date_obj =
     (let roc_year = year date_obj - 1911
      in format_0d 3 roc_year @ format_0d 2 (month date_obj) @ format_0d 2 (day date_obj))"

text \<open>The last date a \<open>datetime\<close> can hold.\<close>

definition last_date :: pydate where
  "last_date = \<lparr>year = 9999, month = 12, day = 31\<rparr>"

text \<open>Each date of the list is followed by the date one day later.\<close>

definition consecutive :: "pydate list \<Rightarrow> bool" where
  "consecutive ds \<longleftrightarrow> (\<forall>i. Suc i < length ds \<longrightarrow> add_one_day (ds ! i) = Inr (ds ! Suc i))"

text \<open>
  \<open>ds\<close> is the range of days from \<open>s\<close> to \<open>e\<close>: it holds exactly the calendar dates between
  the two, in strictly ascending order, one day apart, and starts at \<open>s\<close> and ends at \<open>e\<close>
  when there is any.
\<close>

definition dates_between :: "pydate \<Rightarrow> pydate \<Rightarrow> pydate list \<Rightarrow> bool" where
  "dates_between s e ds \<longleftrightarrow>
     set ds = {d. valid_date d \<and> date_le s d \<and> date_le d e} \<and>
     sorted_wrt date_less ds \<and> consecutive ds \<and>
     (date_le s e \<longrightarrow> ds \<noteq> [] \<and> hd ds = s \<and> last ds = e)"

section \<open>The batch driver \<open>auto_fill_journals\<close>\<close>

text \<open>
  The dictionary \<open>results\<close> and the dictionaries appended to \<open>results['details']\<close>.
\<close>

record detail =
  d_date :: pydate
  d_content :: pystr
  d_school_id :: pystr
  d_success :: bool

record results =
  total :: int
  success :: int
  failed :: int
  details :: "detail list"

text \<open>
  What \<open>auto_fill_journals\<close> sees of the object it runs on: the two configuration fields it
  reads and the methods it calls. A method works on the world outside (the browser session,
  the site, the thread of the user interface), of type \<open>'w\<close>; it returns a value or raises,
  and leaves a new world. \<open>bot_quit\<close> is the closing of the browser in the \<open>finally\<close> block,
  whose own faults are swallowed there.
\<close>

record 'w bot =
  bot_school_id :: pystr
  bot_delay :: int
  bot_login :: "'w \<Rightarrow> (exn + bool) \<times> 'w"
  bot_navigate_to_journal :: "'w \<Rightarrow> (exn + bool) \<times> 'w"
  bot_fill_journal_entry :: "pydate \<Rightarrow> pystr \<Rightarrow> 'w \<Rightarrow> (exn + bool) \<times> 'w"
  bot_quit :: "'w \<Rightarrow> 'w"

type_synonym 'w progress_cb = "int \<Rightarrow> int \<Rightarrow> int \<Rightarrow> int \<Rightarrow> 'w \<Rightarrow> (exn + unit) \<times> 'w"
type_synonym 'w stop_cb = "'w \<Rightarrow> (exn + bool) \<times> 'w"

text \<open>
  The calls that a run makes on the outside, in order, each with what it was given and
  what came back. The list is kept beside the program state and is never read by the
  program.
\<close>

datatype event =
    ELogin "exn + bool"
  | ENavigate "exn + bool"
  | EStop "exn + bool"
  | EProgress int int int int
  | EFill pydate pystr "exn + bool"
  | EQuit

record 'w run =
  res :: results
  trace :: "event list"
  world :: 'w

text \<open>How one pass through the body of the \<open>for\<close> loop, or the loop, ends.\<close>

datatype loop_exit = Next | Broken | Raised exn

text \<open>
  \<open>time.sleep\<close> with a whole number of seconds, as \<open>self.delay\<close> is. The interpreter
  first turns the length into its clock value, a signed 64-bit count of nanoseconds, and a
  length that does not fit is \<open>OverflowError\<close>; then a negative length is
  \<open>ValueError\<close>. The longest wait is 9223372036 seconds.
\<close>

definition sleep :: "int \<Rightarrow> exn + unit" where
  "sleep secs =
     (if secs < - 9223372036 \<or> 9223372036 < secs then Inl OverflowError
      else if secs < 0 then Inl ValueError
      else Inr ())"

text \<open>
  \<open>if stop_callback and not stop_callback(): break\<close>. The result is whether to break.
\<close>

definition check_stop :: "'w stop_cb option \<Rightarrow> 'w run \<Rightarrow> (exn + bool) \<times> 'w run" where
  "check_stop stop_callback s =
     (case stop_callback of
        None \<Rightarrow> (Inr False, s)
      | Some f \<Rightarrow>
          (case f (world s) of
             (r, w) \<Rightarrow>
               (map_sum id Not r, s\<lparr>trace := trace s @ [EStop r], world := w\<rparr>)))"

text \<open>
  \<open>if progress_callback: progress_callback(current, total, results['success'],
  results['failed'])\<close>.
\<close>

definition emit_progress ::
  "'w progress_cb option \<Rightarrow> int \<Rightarrow> int \<Rightarrow> 'w run \<Rightarrow> (exn + unit) \<times> 'w run" where
  "emit_progress progress_callback current n s =
     (case progress_callback of
        None \<Rightarrow> (Inr (), s)
      | Some f \<Rightarrow>
          (case f current n (success (res s)) (failed (res s)) (world s) of
             (r, w) \<Rightarrow>
               (r, s\<lparr>trace := trace s @ [EProgress current n (success (res s)) (failed (res s))],
                      world := w\<rparr>)))"

text \<open>Lines 1227 to 1239: the record of the day is appended and one counter goes up.\<close>

definition record_result :: "results \<Rightarrow> pydate \<Rightarrow> pystr \<Rightarrow> pystr \<Rightarrow> bool \<Rightarrow> results" where
  "record_result r date content sid ok =
     (let result_detail = \<lparr>d_date = date, d_content = content, d_school_id = sid, d_success = ok\<rparr>;
          r1 = r\<lparr>details := details r @ [result_detail]\<rparr>
      in if ok then r1\<lparr>success := success r1 + 1\<rparr> else r1\<lparr>failed := failed r1 + 1\<rparr>)"

text \<open>
  Lines 1241 to 1251: unless this was the last date, wait and go back to the entry form.
  What \<open>navigate_to_journal\<close> returns is dropped, and what it raises is caught and logged.
\<close>

definition renavigate :: "'w bot \<Rightarrow> int \<Rightarrow> int \<Rightarrow> 'w run \<Rightarrow> exn option \<times> 'w run" where
  "renavigate self n i s =
     (if i < n - 1
      then (case sleep (bot_delay self) of
              Inl e \<Rightarrow> (Some e, s)
            | Inr _ \<Rightarrow>
                (case bot_navigate_to_journal self (world s) of
                   (r, w) \<Rightarrow> (None, s\<lparr>trace := trace s @ [ENavigate r], world := w\<rparr>)))
      else (None, s))"

text \<open>The body of \<open>for i, date in enumerate(dates)\<close>; \<open>n\<close> is \<open>len(dates)\<close>.\<close>

definition process_date ::
  "'w bot \<Rightarrow> pystr \<Rightarrow> 'w progress_cb option \<Rightarrow> 'w stop_cb option \<Rightarrow> int \<Rightarrow> int \<Rightarrow> pydate \<Rightarrow>
   'w run \<Rightarrow> loop_exit \<times> 'w run" where
  "process_date self base_content progress_callback stop_callback n i date s =
     (case check_stop stop_callback s of
        (Inl e, s1) \<Rightarrow> (Raised e, s1)
      | (Inr True, s1) \<Rightarrow> (Broken, s1)
      | (Inr False, s1) \<Rightarrow>
          (let content = generate_content base_content i
           in case emit_progress progress_callback (i + 1) n s1 of
                (Inl e, s2) \<Rightarrow> (Raised e, s2)
              | (Inr _, s2) \<Rightarrow>
                  (case bot_fill_journal_entry self date content (world s2) of
                     (Inl e, w) \<Rightarrow>
                       (Raised e, s2\<lparr>trace := trace s2 @ [EFill date content (Inl e)], world := w\<rparr>)
                   | (Inr ok, w) \<Rightarrow>
                       (let s3 = s2\<lparr>res := record_result (res s2) date content (bot_school_id self) ok,
                                     trace := trace s2 @ [EFill date content (Inr ok)],
                                     world := w\<rparr>
                        in case renavigate self n i s3 of
                             (Some e, s4) \<Rightarrow> (Raised e, s4)
                           | (None, s4) \<Rightarrow> (Next, s4)))))"

text \<open>
  The \<open>for\<close> loop over the dates still to come, \<open>i\<close> being the index of the first of them.
  \<open>Next\<close> as the result says that the dates ran out.
\<close>

fun for_dates ::
  "'w bot \<Rightarrow> pystr \<Rightarrow> 'w progress_cb option \<Rightarrow> 'w stop_cb option \<Rightarrow> int \<Rightarrow> int \<Rightarrow> pydate list \<Rightarrow>
   'w run \<Rightarrow> loop_exit \<times> 'w run" where
  "for_dates self base_content progress_callback stop_callback n i [] s = (Next, s)"
| "for_dates self base_content progress_callback stop_callback n i (date # rest) s =
     (case process_date self base_content progress_callback stop_callback n i date s of
        (Next, s') \<Rightarrow> for_dates self base_content progress_callback stop_callback n (i + 1) rest s'
      | (Broken, s') \<Rightarrow> (Broken, s')
      | (Raised e, s') \<Rightarrow> (Raised e, s'))"

text \<open>
  The \<open>try\<close> block of \<open>auto_fill_journals\<close>. Every way out of it (the two \<open>return
  results\<close>, the end of the block, and \<open>except Exception\<close>, which only logs) leaves
  \<open>results\<close> as it stands at that moment. \<open>dates[0]\<close> in the log line before the loop is
  \<open>IndexError\<close> on an empty list.
\<close>

definition try_block ::
  "'w bot \<Rightarrow> pydate \<Rightarrow> pydate \<Rightarrow> pystr \<Rightarrow> 'w progress_cb option \<Rightarrow> 'w stop_cb option \<Rightarrow>
   'w run \<Rightarrow> 'w run" where
  "try_block self start_date end_date base_content progress_callback stop_callback s0 =
     (case bot_login self (world s0) of
        (r1, w1) \<Rightarrow>
          (let s1 = s0\<lparr>trace := trace s0 @ [ELogin r1], world := w1\<rparr>
           in case r1 of
                Inl e \<Rightarrow> s1
              | Inr False \<Rightarrow> s1
              | Inr True \<Rightarrow>
                  (case bot_navigate_to_journal self (world s1) of
                     (r2, w2) \<Rightarrow>
                       (let s2 = s1\<lparr>trace := trace s1 @ [ENavigate r2], world := w2\<rparr>
                        in case r2 of
                             Inl e \<Rightarrow> s2
                           | Inr False \<Rightarrow> s2
                           | Inr True \<Rightarrow>
                               (case generate_dates start_date end_date of
                                  Inl e \<Rightarrow> s2
                                | Inr dates \<Rightarrow>
                                    (let n = int (length dates);
                                         s3 = s2\<lparr>res := (res s2)\<lparr>total := n\<rparr>\<rparr>
                                     in if dates = [] then s3
                                        else (case for_dates self base_content progress_callback
                                                     stop_callback n 0 dates s3 of
                                                (Raised e, s4) \<Rightarrow> s4
                                              | (Next, s4) \<Rightarrow>
                                                  snd (emit_progress progress_callback n n s4)
                                              | (Broken, s4) \<Rightarrow>
                                                  snd (emit_progress progress_callback n n s4))))))))"

definition auto_fill_journals ::
  "'w bot \<Rightarrow> pydate \<Rightarrow> pydate \<Rightarrow> pystr \<Rightarrow> 'w progress_cb option \<Rightarrow> 'w stop_cb option \<Rightarrow>
   'w \<Rightarrow> 'w run" where
  "auto_fill_journals self start_date end_date base_content progress_callback stop_callback w =
     (let results0 = \<lparr>total = 0, success = 0, failed = 0, details = []\<rparr>;
          s = try_block self start_date end_date base_content progress_callback stop_callback
                \<lparr>res = results0, trace = [], world = w\<rparr>
      in s\<lparr>trace := trace s @ [EQuit], world := bot_quit self (world s)\<rparr>)"

text \<open>What a trace says: the progress events, the dates submitted, the answers of the
  cancellation predicate, the outcomes of the navigations.\<close>

fun progress_events :: "event list \<Rightarrow> (int \<times> int \<times> int \<times> int) list" where
  "progress_events [] = []"
| "progress_events (EProgress p t s f # es) = (p, t, s, f) # progress_events es"
| "progress_events (_ # es) = progress_events es"

fun fills :: "event list \<Rightarrow> (pydate \<times> (exn + bool)) list" where
  "fills [] = []"
| "fills (EFill d c r # es) = (d, r) # fills es"
| "fills (_ # es) = fills es"

text \<open>The submissions that returned, each with its date and what it returned.\<close>

fun outcomes :: "event list \<Rightarrow> (pydate \<times> bool) list" where
  "outcomes [] = []"
| "outcomes (EFill d c (Inr ok) # es) = (d, ok) # outcomes es"
| "outcomes (_ # es) = outcomes es"

fun polls :: "event list \<Rightarrow> (exn + bool) list" where
  "polls [] = []"
| "polls (EStop r # es) = r # polls es"
| "polls (_ # es) = polls es"

fun navigations :: "event list \<Rightarrow> (exn + bool) list" where
  "navigations [] = []"
| "navigations (ENavigate r # es) = r # navigations es"
| "navigations (_ # es) = navigations es"

text \<open>
  The events that a pass through the loop body leaves when the cancellation predicate lets
  it go on, and when it reports its progress.
\<close>

definition poll_events :: "'w stop_cb option \<Rightarrow> event list" where
  "poll_events scb = (case scb of None \<Rightarrow> [] | Some f \<Rightarrow> [EStop (Inr True)])"

definition day_progress :: "'w progress_cb option \<Rightarrow> int \<Rightarrow> int \<Rightarrow> results \<Rightarrow> event list" where
  "day_progress pcb c n r =
     (case pcb of None \<Rightarrow> [] | Some f \<Rightarrow> [EProgress c n (success r) (failed r)])"

subsection \<open>A scripted world\<close>

text \<open>
  A world for running the driver on concrete inputs: it counts the calls made so far, and
  the bot built on it answers the \<open>k\<close>-th call of a method as a script says.
\<close>

record counters =
  nav_calls :: nat
  fill_calls :: nat
  poll_calls :: nat

definition counters0 :: counters where
  "counters0 = \<lparr>nav_calls = 0, fill_calls = 0, poll_calls = 0\<rparr>"

definition scripted_bot ::
  "(exn + bool) \<Rightarrow> (nat \<Rightarrow> exn + bool) \<Rightarrow> (nat \<Rightarrow> exn + bool) \<Rightarrow> int \<Rightarrow> counters bot" where
  "scripted_bot login_result nav_script fill_script secs =
     \<lparr>bot_school_id = ascii ''A1'',
      bot_delay = secs,
      bot_login = (\<lambda>w. (login_result, w)),
      bot_navigate_to_journal = (\<lambda>w. (nav_script (nav_calls w), w\<lparr>nav_calls := nav_calls w + 1\<rparr>)),
      bot_fill_journal_entry =
        (\<lambda>date content w. (fill_script (fill_calls w), w\<lparr>fill_calls := fill_calls w + 1\<rparr>)),
      bot_quit = (\<lambda>w. w)\<rparr>"

text \<open>A cancellation predicate that answers "keep running" to its first \<open>k\<close> polls.\<close>

definition stop_after :: "nat \<Rightarrow> counters stop_cb" where
  "stop_after k = (\<lambda>w. (Inr (poll_calls w < k), w\<lparr>poll_calls := poll_calls w + 1\<rparr>))"

definition never_stop :: "counters stop_cb" where
  "never_stop = (\<lambda>w. (Inr True, w))"

definition silent_progress :: "counters progress_cb" where
  "silent_progress = (\<lambda>current n succeeded failed_days w. (Inr (), w))"

text \<open>The first navigation reaches the form; the next does not, and all later ones fault.\<close>

definition first_nav_only :: "nat \<Rightarrow> exn + bool" where
  "first_nav_only k = (if k = 0 then Inr True else if k = 1 then Inr False else Inl WebDriverException)"

definition jan :: "int \<Rightarrow> pydate" where
  "jan n = \<lparr>year = 2024, month = 1, day = n\<rparr>"

text \<open>
  The bot of the examples: the login succeeds, the form is reached the first time only, the
  second submission is rejected and the others are accepted, and the delay is one second.
\<close>

definition example_bot :: "counters bot" where
  "example_bot = scripted_bot (Inr True) first_nav_only (\<lambda>k. Inr (k \<noteq> 1)) 1"

section \<open>The browser and \<open>fill_journal_entry\<close>\<close>

text \<open>
  The browser-driving engine is a capability from outside: each operation that the code
  calls on \<open>self.driver\<close> or on an element is a function on the state \<open>'b\<close> of the
  browser that returns a value or raises, and leaves a new state. \<open>wait_presence\<close> is
  \<open>WebDriverWait(self.driver, 10).until(EC.presence_of_element_located((kind, value)))\<close>,
  which raises \<open>TimeoutException\<close> when the element does not appear, and
  \<open>wait_clickable\<close> is the same with three seconds and \<open>EC.element_to_be_clickable\<close>.
  \<open>scroll_into_view\<close> is \<open>execute_script("arguments[0].scrollIntoView(true);", e)\<close>, and
  \<open>select_by_value e v\<close> is \<open>Select(e).select_by_value(v)\<close>. \<open>time.sleep\<close> with a
  constant and the calls of the logger have no part in the model.
\<close>

datatype by_kind = By_ID | By_NAME | By_CSS_SELECTOR | By_TAG_NAME | By_XPATH

datatype elem = Elem nat

record 'b driver =
  find_element :: "by_kind \<Rightarrow> pystr \<Rightarrow> 'b \<Rightarrow> (exn + elem) \<times> 'b"
  find_elements :: "by_kind \<Rightarrow> pystr \<Rightarrow> 'b \<Rightarrow> (exn + elem list) \<times> 'b"
  child_elements :: "elem \<Rightarrow> by_kind \<Rightarrow> pystr \<Rightarrow> 'b \<Rightarrow> (exn + elem list) \<times> 'b"
  wait_presence :: "by_kind \<Rightarrow> pystr \<Rightarrow> 'b \<Rightarrow> (exn + elem) \<times> 'b"
  wait_clickable :: "by_kind \<Rightarrow> pystr \<Rightarrow> 'b \<Rightarrow> (exn + elem) \<times> 'b"
  switch_to_frame :: "elem \<Rightarrow> 'b \<Rightarrow> (exn + unit) \<times> 'b"
  switch_to_default_content :: "'b \<Rightarrow> (exn + unit) \<times> 'b"
  scroll_into_view :: "elem \<Rightarrow> 'b \<Rightarrow> (exn + unit) \<times> 'b"
  clear :: "elem \<Rightarrow> 'b \<Rightarrow> (exn + unit) \<times> 'b"
  send_keys :: "elem \<Rightarrow> pystr \<Rightarrow> 'b \<Rightarrow> (exn + unit) \<times> 'b"
  click :: "elem \<Rightarrow> 'b \<Rightarrow> (exn + unit) \<times> 'b"
  get_attribute :: "elem \<Rightarrow> pystr \<Rightarrow> 'b \<Rightarrow> (exn + pystr option) \<times> 'b"
  select_by_value :: "elem \<Rightarrow> pystr \<Rightarrow> 'b \<Rightarrow> (exn + unit) \<times> 'b"
  page_source :: "'b \<Rightarrow> (exn + pystr) \<times> 'b"
  current_url :: "'b \<Rightarrow> (exn + pystr) \<times> 'b"

text \<open>
  A statement of the method body goes on with a value, returns from the method, or raises.
\<close>

datatype 'a flow = Go 'a | Return bool | Raise exn

definition ret :: "'a \<Rightarrow> 'b \<Rightarrow> 'a flow \<times> 'b" where
  "ret v b = (Go v, b)"

definition call :: "('b \<Rightarrow> (exn + 'a) \<times> 'b) \<Rightarrow> 'b \<Rightarrow> 'a flow \<times> 'b" where
  "call f b = (case f b of (Inl e, b1) \<Rightarrow> (Raise e, b1) | (Inr v, b1) \<Rightarrow> (Go v, b1))"

definition and_then ::
  "('b \<Rightarrow> 'a flow \<times> 'b) \<Rightarrow> ('a \<Rightarrow> 'b \<Rightarrow> 'c flow \<times> 'b) \<Rightarrow> 'b \<Rightarrow> 'c flow \<times> 'b" where
  "and_then m f b =
     (case m b of
        (Go v, b1) \<Rightarrow> f v b1
      | (Return r, b1) \<Rightarrow> (Return r, b1)
      | (Raise e, b1) \<Rightarrow> (Raise e, b1))"

text \<open>\<open>try: m except x: handler\<close>, for one class of exception.\<close>

definition on_exn ::
  "exn \<Rightarrow> ('b \<Rightarrow> 'a flow \<times> 'b) \<Rightarrow> ('b \<Rightarrow> 'a flow \<times> 'b) \<Rightarrow> 'b \<Rightarrow> 'a flow \<times> 'b" where
  "on_exn x m handler b =
     (case m b of
        (Raise e, b1) \<Rightarrow> if e = x then handler b1 else (Raise e, b1)
      | (Go v, b1) \<Rightarrow> (Go v, b1)
      | (Return r, b1) \<Rightarrow> (Return r, b1))"

text \<open>\<open>try: m except Exception: return False\<close>.\<close>

definition or_return_False :: "('b \<Rightarrow> 'a flow \<times> 'b) \<Rightarrow> 'b \<Rightarrow> 'a flow \<times> 'b" where
  "or_return_False m b =
     (case m b of
        (Raise e, b1) \<Rightarrow> (Return False, b1)
      | (Go v, b1) \<Rightarrow> (Go v, b1)
      | (Return r, b1) \<Rightarrow> (Return r, b1))"

text \<open>\<open>try: m except: pass\<close>, for a block that holds no \<open>return\<close>.\<close>

definition passing :: "('b \<Rightarrow> 'a flow \<times> 'b) \<Rightarrow> 'b \<Rightarrow> unit flow \<times> 'b" where
  "passing m b = (Go (), snd (m b))"

text \<open>\<open>try: m except Exception: pass\<close>, for a block that may return.\<close>

definition passing_faults :: "('b \<Rightarrow> unit flow \<times> 'b) \<Rightarrow> 'b \<Rightarrow> unit flow \<times> 'b" where
  "passing_faults m b =
     (case m b of
        (Raise e, b1) \<Rightarrow> (Go (), b1)
      | (Go v, b1) \<Rightarrow> (Go v, b1)
      | (Return r, b1) \<Rightarrow> (Return r, b1))"

text \<open>A \<open>for\<close> loop whose body neither breaks nor continues.\<close>

fun for_each :: "('x \<Rightarrow> 'b \<Rightarrow> unit flow \<times> 'b) \<Rightarrow> 'x list \<Rightarrow> 'b \<Rightarrow> unit flow \<times> 'b" where
  "for_each f [] b = (Go (), b)"
| "for_each f (x # xs) b =
     (case f x b of
        (Go u, b1) \<Rightarrow> for_each f xs b1
      | (Return r, b1) \<Rightarrow> (Return r, b1)
      | (Raise e, b1) \<Rightarrow> (Raise e, b1))"

subsection \<open>The texts of the code\<close>

text \<open>
  Texts outside ASCII are given by their code points: U+6C11 U+570B in the placeholder of
  the date field, U+65B0 U+589E in the value of the button, U+5B78 U+7FD2 U+65E5 U+8A8C for
  the name of the journal page. The code point 39 is the single quote.
\<close>

definition placeholder_selector :: pystr where
  "placeholder_selector =
     ascii ''input[placeholder*='' @ [39, 27665, 22283] @ ascii ''yyymmdd'' @ [39] @ ascii '']''"

definition required_selector :: pystr where
  "required_selector = ascii ''input[required='' @ [39] @ ascii ''ture'' @ [39] @ ascii '']''"

definition value_selector :: pystr where
  "value_selector = ascii ''input[value*='' @ [39, 26032, 22686, 39] @ ascii '']''"

definition onclick_selector :: pystr where
  "onclick_selector = ascii ''input[onclick*='' @ [39] @ ascii ''add'' @ [39] @ ascii '']''"

definition journal_name :: pystr where
  "journal_name = [23416, 32722, 26085, 35468]"

text \<open>
  The marker lists of the result check. The first holds U+6210 U+529F, U+5B8C U+6210,
  U+65B0 U+589E U+5B8C U+6210, U+5132 U+5B58 U+6210 U+529F and \<open>success\<close>; the second
  U+932F U+8AA4, U+5931 U+6557, U+91CD U+8907, U+5DF2 U+5B58 U+5728 and \<open>error\<close>.
\<close>

definition success_keywords :: "pystr list" where
  "success_keywords =
     [ [25104, 21151], [23436, 25104], [26032, 22686, 23436, 25104],
      [20786, 23384, 25104, 21151], ascii ''success'']"

definition failure_keywords :: "pystr list" where
  "failure_keywords =
     [ [37679, 35492], [22833, 25943], [37325, 35079], [24050, 23384, 22312], ascii ''error'']"

text \<open>
  The six XPath expressions of \<open>journal_selectors\<close> in \<open>navigate_to_journal\<close>: a
  link whose text holds the name of the journal page; one whose text holds U+65E5 U+8A8C, the
  second half of that name; one whose target holds \<open>PunchList_A\<close>; and the first again
  below a list item, a list and a division.
\<close>

definition xpath_text :: "string \<Rightarrow> pystr \<Rightarrow> pystr" where
  "xpath_text path t = ascii path @ ascii ''a[contains(text(), '' @ [39] @ t @ [39] @ ascii '')]''"

definition xpath_href :: pystr where
  "xpath_href = ascii ''//a[contains(@href, '' @ [39] @ ascii ''PunchList_A'' @ [39] @ ascii '')]''"

definition journal_selectors :: "pystr list" where
  "journal_selectors =
     [xpath_text ''//'' journal_name,
      xpath_text ''//'' [26085, 35468],
      xpath_href,
      xpath_text ''//li//'' journal_name,
      xpath_text ''//ul//'' journal_name,
      xpath_text ''//div//'' journal_name]"

subsection \<open>The steps of \<open>fill_journal_entry\<close>\<close>

text \<open>
  Lines 942 to 961. Each frame is entered in turn; the first one that holds an element with
  the identifier \<open>date\<close> is kept. A fault inside the loop body leads back to the top
  document and to the next frame, and a fault of that way back ends the search, the
  surrounding \<open>try\<close> swallowing it.
\<close>

fun try_frames :: "'b driver \<Rightarrow> elem list \<Rightarrow> 'b \<Rightarrow> unit flow \<times> 'b" where
  "try_frames drv [] b = (Go (), b)"
| "try_frames drv (iframe # rest) b =
     (case and_then (call (switch_to_frame drv iframe))
             (\<lambda>u. and_then (call (find_elements drv By_ID (ascii ''date'')))
                (\<lambda>found. if found \<noteq> [] then ret True
                          else and_then (call (switch_to_default_content drv)) (\<lambda>u. ret False))) b of
        (Go True, b1) \<Rightarrow> (Go (), b1)
      | (Go False, b1) \<Rightarrow> try_frames drv rest b1
      | (Return r, b1) \<Rightarrow> (Return r, b1)
      | (Raise e, b1) \<Rightarrow>
          (case call (switch_to_default_content drv) b1 of
             (Go u, b2) \<Rightarrow> try_frames drv rest b2
           | (Return r, b2) \<Rightarrow> (Return r, b2)
           | (Raise e2, b2) \<Rightarrow> (Raise e2, b2)))"

definition enter_frames :: "'b driver \<Rightarrow> 'b \<Rightarrow> unit flow \<times> 'b" where
  "enter_frames drv =
     passing (and_then (call (find_elements drv By_TAG_NAME (ascii ''iframe''))) (try_frames drv))"

text \<open>The attributes of an element that a log line asks for, one after the other.\<close>

definition get_attributes :: "'b driver \<Rightarrow> pystr list \<Rightarrow> elem \<Rightarrow> 'b \<Rightarrow> unit flow \<times> 'b" where
  "get_attributes drv names e =
     for_each (\<lambda>name. and_then (call (get_attribute drv e name)) (\<lambda>v. ret ())) names"

text \<open>Lines 991 to 1002: the input fields of the page are listed in the log.\<close>

definition log_inputs :: "'b driver \<Rightarrow> 'b \<Rightarrow> unit flow \<times> 'b" where
  "log_inputs drv =
     passing (and_then (call (find_elements drv By_TAG_NAME (ascii ''input'')))
                (for_each (get_attributes drv
                   [ascii ''id'', ascii ''name'', ascii ''type'', ascii ''placeholder''])))"

text \<open>
  Lines 975 to 1004: the date field is looked for by identifier, then by name, then by its
  placeholder, each time waiting up to ten seconds; only a timeout leads to the next
  candidate, and after the third timeout the method returns false.
\<close>

definition find_date_input :: "'b driver \<Rightarrow> 'b \<Rightarrow> elem flow \<times> 'b" where
  "find_date_input drv =
     on_exn TimeoutException (call (wait_presence drv By_ID (ascii ''date'')))
       (on_exn TimeoutException (call (wait_presence drv By_NAME (ascii ''date'')))
          (on_exn TimeoutException (call (wait_presence drv By_CSS_SELECTOR placeholder_selector))
             (and_then (log_inputs drv) (\<lambda>u b. (Return False, b)))))"

text \<open>
  Lines 1007 to 1018 and 1048 to 1058: the field is scrolled to, cleared and typed into;
  any fault makes the method return false.
\<close>

definition type_into :: "'b driver \<Rightarrow> elem \<Rightarrow> pystr \<Rightarrow> 'b \<Rightarrow> unit flow \<times> 'b" where
  "type_into drv e t =
     or_return_False
       (and_then (call (scroll_into_view drv e))
          (\<lambda>u. and_then (call (clear drv e)) (\<lambda>u. call (send_keys drv e t))))"

text \<open>
  Lines 1027 to 1045. The third candidate is dropped when its identifier is \<open>date\<close>; when
  reading the identifier raises \<open>NoSuchElementException\<close>, the element found stays.
\<close>

definition find_work_input :: "'b driver \<Rightarrow> 'b \<Rightarrow> elem option flow \<times> 'b" where
  "find_work_input drv =
     on_exn NoSuchElementException
       (and_then (call (find_element drv By_ID (ascii ''work''))) (\<lambda>e. ret (Some e)))
       (on_exn NoSuchElementException
          (and_then (call (find_element drv By_NAME (ascii ''work''))) (\<lambda>e. ret (Some e)))
          (on_exn NoSuchElementException
             (and_then (call (find_element drv By_CSS_SELECTOR required_selector))
                (\<lambda>e. on_exn NoSuchElementException
                        (and_then (call (get_attribute drv e (ascii ''id'')))
                           (\<lambda>v. ret (if v \<noteq> Some (ascii ''date'') then Some e else None)))
                        (ret (Some e))))
             (ret None)))"

text \<open>Lines 1067 to 1081.\<close>

definition find_school_select :: "'b driver \<Rightarrow> 'b \<Rightarrow> elem option flow \<times> 'b" where
  "find_school_select drv =
     on_exn NoSuchElementException
       (and_then (call (find_element drv By_ID (ascii ''schno''))) (\<lambda>e. ret (Some e)))
       (on_exn NoSuchElementException
          (and_then (call (find_element drv By_NAME (ascii ''schno''))) (\<lambda>e. ret (Some e)))
          (on_exn NoSuchElementException
             (and_then (call (find_element drv By_TAG_NAME (ascii ''select''))) (\<lambda>e. ret (Some e)))
             (ret None)))"

text \<open>
  Lines 1083 to 1100: the category is selected; a fault is logged with the options of the
  list, and the method goes on in every case.
\<close>

definition choose_school :: "'b driver \<Rightarrow> pystr \<Rightarrow> elem option \<Rightarrow> 'b \<Rightarrow> unit flow \<times> 'b" where
  "choose_school drv school_id school_select =
     (case school_select of
        None \<Rightarrow> ret ()
      | Some sel \<Rightarrow>
          (\<lambda>b. case and_then (call (scroll_into_view drv sel))
                       (\<lambda>u. call (select_by_value drv sel school_id)) b of
                  (Raise e, b1) \<Rightarrow>
                    passing (and_then (call (child_elements drv sel By_TAG_NAME (ascii ''option'')))
                               (for_each (get_attributes drv [ascii ''value'']))) b1
                | (Go u, b1) \<Rightarrow> (Go (), b1)
                | (Return r, b1) \<Rightarrow> (Return r, b1)))"

text \<open>Lines 1106 to 1124.\<close>

definition find_submit_btn :: "'b driver \<Rightarrow> 'b \<Rightarrow> elem option flow \<times> 'b" where
  "find_submit_btn drv =
     on_exn NoSuchElementException
       (and_then (call (find_element drv By_ID (ascii ''btnSent''))) (\<lambda>e. ret (Some e)))
       (on_exn NoSuchElementException
          (and_then (call (find_element drv By_NAME (ascii ''btnSent''))) (\<lambda>e. ret (Some e)))
          (on_exn NoSuchElementException
             (and_then (call (find_element drv By_CSS_SELECTOR value_selector)) (\<lambda>e. ret (Some e)))
             (on_exn NoSuchElementException
                (and_then (call (find_element drv By_CSS_SELECTOR onclick_selector))
                   (\<lambda>e. ret (Some e)))
                (ret None))))"

text \<open>Lines 1139 to 1151: the buttons of the page are listed in the log.\<close>

definition log_buttons :: "'b driver \<Rightarrow> 'b \<Rightarrow> unit flow \<times> 'b" where
  "log_buttons drv =
     passing
       (and_then (call (find_elements drv By_TAG_NAME (ascii ''input'')))
          (\<lambda>inputs. and_then (call (find_elements drv By_TAG_NAME (ascii ''button'')))
             (\<lambda>buttons. for_each
                (get_attributes drv
                   [ascii ''id'', ascii ''name'', ascii ''type'', ascii ''value'', ascii ''onclick''])
                (inputs @ buttons))))"

text \<open>
  Lines 1163 to 1172: the text of the page after the submission is searched for a marker
  of the first list, then for one of the second.
\<close>

definition check_result :: "pystr \<Rightarrow> bool" where
  "check_result page =
     (if list_ex (\<lambda>keyword. sublist keyword page) success_keywords then True
      else if list_ex (\<lambda>keyword. sublist keyword page) failure_keywords then False
      else True)"

text \<open>
  The body of the \<open>try\<close> block of \<open>fill_journal_entry\<close> up to the switch back to the top
  document after the click (lines 935 to 1160). An element is true in a condition, so the
  branches for a date field that was found but counts as false do not exist.
\<close>

definition fill_form :: "'b driver \<Rightarrow> pystr \<Rightarrow> pydate \<Rightarrow> pystr \<Rightarrow> 'b \<Rightarrow> unit flow \<times> 'b" where
  "fill_form drv school_id date content =
     and_then (enter_frames drv) (\<lambda>u.
     and_then (\<lambda>b. case strptime date of Inl e \<Rightarrow> (Raise e, b) | Inr date_obj \<Rightarrow> (Go date_obj, b))
       (\<lambda>date_obj.
     and_then (find_date_input drv) (\<lambda>date_input.
     and_then (type_into drv date_input (formatted_date date_obj)) (\<lambda>u.
     and_then (find_work_input drv) (\<lambda>work_input.
       case work_input of
         None \<Rightarrow> (\<lambda>b. (Return False, b))
       | Some work \<Rightarrow>
     and_then (type_into drv work content) (\<lambda>u.
     and_then (find_school_select drv) (\<lambda>school_select.
     and_then (choose_school drv school_id school_select) (\<lambda>u.
     and_then (find_submit_btn drv) (\<lambda>submit_btn.
       case submit_btn of
         None \<Rightarrow> and_then (log_buttons drv) (\<lambda>u b. (Return False, b))
       | Some btn \<Rightarrow>
     and_then (or_return_False
                 (and_then (call (scroll_into_view drv btn)) (\<lambda>u. call (click drv btn)))) (\<lambda>u.
     passing (call (switch_to_default_content drv))))))))))))"

text \<open>
  \<open>fill_journal_entry\<close>: the form is filled and submitted, the page is read and
  classified; whatever is raised on the way is caught, the top document is switched back to
  (a fault of which is swallowed) and the method returns false.
\<close>

definition fill_journal_entry :: "'b driver \<Rightarrow> pystr \<Rightarrow> pydate \<Rightarrow> pystr \<Rightarrow> 'b \<Rightarrow> bool \<times> 'b" where
  "fill_journal_entry drv school_id date content b =
     (case and_then (fill_form drv school_id date content)
             (\<lambda>u. and_then (call (page_source drv)) (\<lambda>page. ret (check_result page))) b of
        (Go r, b1) \<Rightarrow> (r, b1)
      | (Return r, b1) \<Rightarrow> (r, b1)
      | (Raise e, b1) \<Rightarrow> (False, snd (switch_to_default_content drv b1)))"

subsection \<open>The first method of \<open>navigate_to_journal\<close>\<close>

text \<open>
  Lines 804 to 810: the link is clicked, and the address of the page, then its text, are
  searched for the marks of the journal page.
\<close>

definition click_and_check :: "'b driver \<Rightarrow> elem \<Rightarrow> 'b \<Rightarrow> bool flow \<times> 'b" where
  "click_and_check drv journal_link =
     and_then (call (click drv journal_link)) (\<lambda>u.
     and_then (call (current_url drv)) (\<lambda>url.
       if sublist (ascii ''PunchList_A'') url then ret True
       else and_then (call (page_source drv)) (\<lambda>page. ret (sublist journal_name page))))"

text \<open>
  Lines 798 to 813, the loop over the link selectors: a link that becomes clickable within
  three seconds is clicked; if the marks of the journal page follow, the method returns
  true; if not, or on a timeout or a missing element, the next selector is tried. Any other
  fault leaves the loop.
\<close>

fun click_links :: "'b driver \<Rightarrow> pystr list \<Rightarrow> 'b \<Rightarrow> unit flow \<times> 'b" where
  "click_links drv [] b = (Go (), b)"
| "click_links drv (selector # rest) b =
     (case and_then (call (wait_clickable drv By_XPATH selector)) (click_and_check drv) b of
        (Go True, b1) \<Rightarrow> (Return True, b1)
      | (Go False, b1) \<Rightarrow> click_links drv rest b1
      | (Return r, b1) \<Rightarrow> (Return r, b1)
      | (Raise e, b1) \<Rightarrow>
          if e = TimeoutException \<or> e = NoSuchElementException then click_links drv rest b1
          else (Raise e, b1))"

text \<open>
  Lines 787 to 816: the loop with the \<open>except Exception\<close> around it, after which the
  method goes on to its second way of reaching the page.
\<close>

definition navigate_by_link :: "'b driver \<Rightarrow> 'b \<Rightarrow> unit flow \<times> 'b" where
  "navigate_by_link drv = passing_faults (click_links drv journal_selectors)"


subsection \<open>Candidates that time out\<close>

text \<open>The three candidates for the date field, in the order in which the code tries them.\<close>

definition date_candidates :: "(by_kind \<times> pystr) list" where
  "date_candidates =
     [(By_ID, ascii ''date''), (By_NAME, ascii ''date''), (By_CSS_SELECTOR, placeholder_selector)]"

text \<open>
  Looking up the candidates of a list one after the other, each lookup ends in a timeout:
  the result is the state of the browser after the last of them, and there is none when
  some lookup finds an element or faults in another way.
\<close>

fun all_time_out ::
  "(by_kind \<Rightarrow> pystr \<Rightarrow> 'b \<Rightarrow> (exn + elem) \<times> 'b) \<Rightarrow> (by_kind \<times> pystr) list \<Rightarrow> 'b \<Rightarrow> 'b option" where
  "all_time_out look [] b = Some b"
| "all_time_out look ((kind, sel) # cs) b =
     (case look kind sel b of
        (Inl e, b1) \<Rightarrow> if e = TimeoutException then all_time_out look cs b1 else None
      | (Inr found, b1) \<Rightarrow> None)"

subsection \<open>A small browser\<close>

text \<open>
  A browser for running the code on concrete pages. A page says which locators find which
  element, what its text and its address are, and which text the page has after a click on
  an element; the browser keeps what was typed and what was clicked. No operation faults
  but the lookups, which find nothing for a locator that the page does not list.
\<close>

record page =
  located :: "((by_kind \<times> pystr) \<times> elem) list"
  page_text :: pystr
  address :: pystr
  leads_to :: "(elem \<times> pystr) list"
  typed :: "(elem \<times> pystr) list"
  clicked :: "elem list"

definition lookup :: "exn \<Rightarrow> by_kind \<Rightarrow> pystr \<Rightarrow> page \<Rightarrow> (exn + elem) \<times> page" where
  "lookup missing kind sel p =
     (case map_of (located p) (kind, sel) of None \<Rightarrow> (Inl missing, p) | Some e \<Rightarrow> (Inr e, p))"

definition small_browser :: "page driver" where
  "small_browser =
     \<lparr>find_element = lookup NoSuchElementException,
      find_elements =
        (\<lambda>kind sel p. (Inr (case map_of (located p) (kind, sel) of None \<Rightarrow> [] | Some e \<Rightarrow> [e]), p)),
      child_elements = (\<lambda>e kind sel p. (Inr [], p)),
      wait_presence = lookup TimeoutException,
      wait_clickable = lookup TimeoutException,
      switch_to_frame = (\<lambda>e p. (Inr (), p)),
      switch_to_default_content = (\<lambda>p. (Inr (), p)),
      scroll_into_view = (\<lambda>e p. (Inr (), p)),
      clear = (\<lambda>e p. (Inr (), p)),
      send_keys = (\<lambda>e t p. (Inr (), p\<lparr>typed := typed p @ [(e, t)]\<rparr>)),
      click =
        (\<lambda>e p. (Inr (), p\<lparr>page_text := (case map_of (leads_to p) e of None \<Rightarrow> page_text p
                                             | Some t \<Rightarrow> t),
                             clicked := clicked p @ [e]\<rparr>)),
      get_attribute = (\<lambda>e name p. (Inr None, p)),
      select_by_value = (\<lambda>e v p. (Inr (), p)),
      page_source = (\<lambda>p. (Inr (page_text p), p)),
      current_url = (\<lambda>p. (Inr (address p), p))\<rparr>"

text \<open>
  The entry form with its four controls under their identifiers; \<open>after\<close> is the text of
  the page that follows a click on the button.
\<close>

definition entry_form :: "pystr \<Rightarrow> page" where
  "entry_form after =
     \<lparr>located = [((By_ID, ascii ''date''), Elem 1), ((By_ID, ascii ''work''), Elem 2),
                 ((By_ID, ascii ''schno''), Elem 3), ((By_ID, ascii ''btnSent''), Elem 4)],
      page_text = ascii ''form'',
      address = ascii ''http://host/punch/PunchList_A.jsp'',
      leads_to = [(Elem 4, after)],
      typed = [],
      clicked = []\<rparr>"

text \<open>
  A form whose date field has no identifier \<open>date\<close> but the name \<open>date\<close> and the
  placeholder: the second and the third candidate both find a field, the first does not.
\<close>

definition form_without_id :: page where
  "form_without_id =
     \<lparr>located = [((By_NAME, ascii ''date''), Elem 7), ((By_CSS_SELECTOR, placeholder_selector), Elem 8)],
      page_text = ascii ''form'',
      address = ascii ''http://host/punch/PunchList_A.jsp'',
      leads_to = [],
      typed = [],
      clicked = []\<rparr>"

text \<open>
  A menu page without a link that carries the full name of the journal page. The second
  selector of \<open>journal_selectors\<close> finds a link, whose click leads to a page without
  the marks of the journal page; the third finds another link, whose click leads to the
  journal page; the other four find nothing.
\<close>

definition menu_page :: page where
  "menu_page =
     \<lparr>located = [((By_XPATH, xpath_text ''//'' [26085, 35468]), Elem 1),
                 ((By_XPATH, xpath_href), Elem 2)],
      page_text = ascii ''menu'',
      address = ascii ''http://host/Menu.jsp'',
      leads_to = [(Elem 1, ascii ''news''), (Elem 2, journal_name)],
      typed = [],
      clicked = []\<rparr>"

text \<open>
  The bot whose \<open>fill_journal_entry\<close> is the one above, on a given driver; its login and
  its navigation do nothing and succeed.
\<close>

definition form_bot :: "'b driver \<Rightarrow> pystr \<Rightarrow> 'b bot" where
  "form_bot drv sid =
     \<lparr>bot_school_id = sid,
      bot_delay = 1,
      bot_login = (\<lambda>b. (Inr True, b)),
      bot_navigate_to_journal = (\<lambda>b. (Inr True, b)),
      bot_fill_journal_entry =
        (\<lambda>date content b. case fill_journal_entry drv sid date content b of (r, b1) \<Rightarrow> (Inr r, b1)),
      bot_quit = (\<lambda>b. b)\<rparr>"


section \<open>Properties of the calendar and of \<open>generate_dates\<close>\<close>

lemma dim_bounds: "28 \<le> days_in_month y m \<and> days_in_month y m \<le> 31"
  by (simp add: days_in_month_def)

lemma date_le_refl: "date_le a a"
  by (simp add: date_le_def)

lemma date_le_trans: "date_le a b \<Longrightarrow> date_le b c \<Longrightarrow> date_le a c"
  by (auto simp: date_le_def)

lemma date_le_antisym: "date_le a b \<Longrightarrow> date_le b a \<Longrightarrow> a = (b::pydate)"
  by (auto simp: date_le_def)

lemma date_less_le_trans: "date_less a b \<Longrightarrow> date_le b c \<Longrightarrow> date_less a c"
  using date_le_antisym date_le_trans unfolding date_less_def by blast

lemma valid_le_last: "valid_date d \<Longrightarrow> date_le d last_date"
  using dim_bounds [of "year d" "month d"]
  by (auto simp: valid_date_def date_le_def last_date_def MAXYEAR_def)

text \<open>
  The day after a calendar date other than the last one is a calendar date, it is later,
  and no calendar date lies between the two.
\<close>

lemma add_one_day_ok:
  assumes "valid_date c" and "c \<noteq> last_date"
  shows "\<exists>n. add_one_day c = Inr n \<and> valid_date n \<and> date_less c n \<and>
             (\<forall>d. valid_date d \<and> date_less c d \<longrightarrow> date_le n d)"
proof -
  let ?dim = "days_in_month (year c) (month c)"
  have dec31: "days_in_month (year c) 12 = 31" by (simp add: days_in_month_def)
  show ?thesis
  proof (cases "day c < ?dim")
    case True
    then have n: "add_one_day c = Inr (c\<lparr>day := day c + 1\<rparr>)"
      using assms(1) by (simp add: add_one_day_def valid_date_def)
    have "valid_date (c\<lparr>day := day c + 1\<rparr>)"
      using True assms(1) by (simp add: valid_date_def)
    moreover have "date_less c (c\<lparr>day := day c + 1\<rparr>)"
      by (auto simp: date_less_def date_le_def dest: arg_cong [where f = day])
    moreover have "\<forall>d. valid_date d \<and> date_less c d \<longrightarrow> date_le (c\<lparr>day := day c + 1\<rparr>) d"
    proof (intro allI impI)
      fix d assume "valid_date d \<and> date_less c d"
      then have "date_le c d" "c \<noteq> d" by (auto simp: date_less_def)
      then show "date_le (c\<lparr>day := day c + 1\<rparr>) d"
        by (cases "day c = day d") (auto simp: date_le_def)
    qed
    ultimately show ?thesis using n by blast
  next
    case False
    with assms(1) have dayc: "day c = ?dim" by (simp add: valid_date_def)
    show ?thesis
    proof (cases "month c < 12")
      case True
      let ?n = "c\<lparr>month := month c + 1, day := 1\<rparr>"
      have n: "add_one_day c = Inr ?n"
        using True False assms(1) by (simp add: add_one_day_def valid_date_def)
      have "valid_date ?n"
        using True assms(1) dim_bounds [of "year c" "month c + 1"] by (simp add: valid_date_def)
      moreover have "date_less c ?n"
        by (auto simp: date_less_def date_le_def dest: arg_cong [where f = month])
      moreover have "\<forall>d. valid_date d \<and> date_less c d \<longrightarrow> date_le ?n d"
      proof (intro allI impI)
        fix d assume d: "valid_date d \<and> date_less c d"
        then have le: "date_le c d" by (simp add: date_less_def)
        from d have "1 \<le> day d" "day d \<le> days_in_month (year d) (month d)"
          by (auto simp: valid_date_def)
        moreover from d have "\<not> (year c = year d \<and> month c = month d \<and> day c = day d)"
          by (auto simp: date_less_def)
        ultimately show "date_le ?n d"
          using le dayc by (auto simp: date_le_def)
      qed
      ultimately show ?thesis using n by blast
    next
      case m12: False
      with assms(1) have mc: "month c = 12" by (simp add: valid_date_def)
      with dayc dec31 have dc: "day c = 31" by simp
      have "year c \<noteq> 9999"
      proof
        assume "year c = 9999"
        with mc dc have "c = last_date" by (simp add: last_date_def)
        with assms(2) show False by simp
      qed
      with assms(1) have yc: "year c < 9999" by (simp add: valid_date_def MAXYEAR_def)
      let ?n = "c\<lparr>year := year c + 1, month := 1, day := 1\<rparr>"
      have n: "add_one_day c = Inr ?n"
        using m12 False yc by (simp add: add_one_day_def MAXYEAR_def)
      have "valid_date ?n"
        using yc assms(1) dim_bounds [of "year c + 1" 1]
        by (simp add: valid_date_def MAXYEAR_def MINYEAR_def)
      moreover have "date_less c ?n"
        by (auto simp: date_less_def date_le_def dest: arg_cong [where f = year])
      moreover have "\<forall>d. valid_date d \<and> date_less c d \<longrightarrow> date_le ?n d"
      proof (intro allI impI)
        fix d assume d: "valid_date d \<and> date_less c d"
        then have le: "date_le c d" by (simp add: date_less_def)
        from d have "1 \<le> day d" "day d \<le> days_in_month (year d) (month d)"
          "1 \<le> month d" "month d \<le> 12"
          by (auto simp: valid_date_def)
        moreover from d have "\<not> (year c = year d \<and> month c = month d \<and> day c = day d)"
          by (auto simp: date_less_def)
        moreover have "days_in_month (year d) 12 = 31" by (simp add: days_in_month_def)
        ultimately show "date_le ?n d"
          using le dc mc by (auto simp: date_le_def)
      qed
      ultimately show ?thesis using n by blast
    qed
  qed
qed

text \<open>Whatever the date, the day after it is later.\<close>

lemma add_one_day_later:
  assumes "add_one_day c = Inr n"
  shows "date_less c n"
proof -
  have neq: "day n \<noteq> day c \<or> month n \<noteq> month c \<or> year n \<noteq> year c \<Longrightarrow> c \<noteq> n"
    by auto
  consider (d) "day c < days_in_month (year c) (month c)"
    | (m) "\<not> day c < days_in_month (year c) (month c)" "month c < 12"
    | (y) "\<not> day c < days_in_month (year c) (month c)" "\<not> month c < 12"
    by blast
  then show ?thesis
  proof cases
    case d
    with assms have "n = c\<lparr>day := day c + 1\<rparr>"
      by (simp add: add_one_day_def split: if_splits)
    then have "year n = year c" "month n = month c" "day n = day c + 1" by simp_all
    then show ?thesis using neq by (simp add: date_less_def date_le_def)
  next
    case m
    with assms have "n = c\<lparr>month := month c + 1, day := 1\<rparr>"
      by (simp add: add_one_day_def split: if_splits)
    then have "year n = year c" "month n = month c + 1" by simp_all
    then show ?thesis using neq by (simp add: date_less_def date_le_def)
  next
    case y
    with assms have "n = c\<lparr>year := year c + 1, month := 1, day := 1\<rparr>"
      by (simp add: add_one_day_def split: if_splits)
    then have "year n = year c + 1" by simp
    then show ?thesis using neq by (simp add: date_less_def date_le_def)
  qed
qed

text \<open>The list built so far is only ever extended at its end.\<close>

lemma dates_loop_acc:
  fixes dummy :: "pydate list"
  shows "\<forall>acc. dates_loop c e acc = map_sum id ((@) acc) (dates_loop c e [])"
proof (induction c e dummy rule: dates_loop.induct)
  case (1 current end_d dates)
  show ?case
  proof (cases "date_le current end_d")
    case False
    then show ?thesis by (simp add: dates_loop.simps)
  next
    case True
    show ?thesis
    proof (cases "add_one_day current")
      case (Inl x)
      with True show ?thesis by (simp add: dates_loop.simps)
    next
      case (Inr nxt)
      from "1.IH" [OF True Inr]
      have ih: "\<And>acc. dates_loop nxt end_d acc = map_sum id ((@) acc) (dates_loop nxt end_d [])"
        by blast
      show ?thesis
      proof
        fix acc
        have "dates_loop current end_d acc = dates_loop nxt end_d (acc @ [current])"
          using True Inr by (simp add: dates_loop.simps [of current])
        also have "\<dots> = map_sum id ((@) (acc @ [current])) (dates_loop nxt end_d [])"
          by (rule ih)
        also have "\<dots> = map_sum id ((@) acc) (map_sum id ((@) [current]) (dates_loop nxt end_d []))"
          by (cases "dates_loop nxt end_d []") simp_all
        also have "map_sum id ((@) [current]) (dates_loop nxt end_d []) = dates_loop nxt end_d [current]"
          by (rule ih [symmetric])
        also have "dates_loop nxt end_d [current] = dates_loop current end_d []"
          using True Inr by (simp add: dates_loop.simps [of current])
        finally show "dates_loop current end_d acc = map_sum id ((@) acc) (dates_loop current end_d [])" .
      qed
    qed
  qed
qed

lemma dates_loop_step:
  assumes "date_le c e" and "add_one_day c = Inr n"
  shows "dates_loop c e [] = map_sum id ((#) c) (dates_loop n e [])"
proof -
  have "dates_loop c e [] = dates_loop n e [c]"
    using assms by (simp add: dates_loop.simps [of c])
  also have "\<dots> = map_sum id ((@) [c]) (dates_loop n e [])"
    using dates_loop_acc by blast
  finally show ?thesis by (cases "dates_loop n e []") simp_all
qed

lemma dates_loop_correct:
  fixes dummy :: "pydate list"
  shows "valid_date c \<longrightarrow> valid_date e \<longrightarrow> e \<noteq> last_date \<longrightarrow>
     (\<exists>ds. dates_loop c e [] = Inr ds \<and> dates_between c e ds)"
proof (induction c e dummy rule: dates_loop.induct)
  case (1 c e dates)
  show ?case
  proof (intro impI)
    assume vc: "valid_date c" and ve: "valid_date e" and ne: "e \<noteq> last_date"
    show "\<exists>ds. dates_loop c e [] = Inr ds \<and> dates_between c e ds"
    proof (cases "date_le c e")
      case False
      then have "dates_loop c e [] = Inr []" by (simp add: dates_loop.simps)
      moreover have "dates_between c e []"
        using False date_le_trans by (auto simp: dates_between_def consecutive_def)
      ultimately show ?thesis by blast
    next
      case True
      have "c \<noteq> last_date"
      proof
        assume "c = last_date"
        with True have "date_le last_date e" by simp
        with valid_le_last [OF ve] have "e = last_date" by (rule date_le_antisym [symmetric, rotated])
        with ne show False by simp
      qed
      from add_one_day_ok [OF vc this] obtain n where
        n: "add_one_day c = Inr n" and vn: "valid_date n" and cn: "date_less c n"
        and gap: "\<And>d. valid_date d \<Longrightarrow> date_less c d \<Longrightarrow> date_le n d"
        by blast
      from "1.IH" [OF True n] vn ve ne obtain ds where
        ds: "dates_loop n e [] = Inr ds" and btw: "dates_between n e ds"
        by blast
      have res: "dates_loop c e [] = Inr (c # ds)"
        using dates_loop_step [OF True n] ds by simp
      have set_ds: "set ds = {d. valid_date d \<and> date_le n d \<and> date_le d e}"
        and sorted_ds: "sorted_wrt date_less ds" and cons_ds: "consecutive ds"
        and ends: "date_le n e \<Longrightarrow> ds \<noteq> [] \<and> hd ds = n \<and> last ds = e"
        using btw by (auto simp: dates_between_def)
      have cle: "date_le c n" using cn by (simp add: date_less_def)
      have s1: "set (c # ds) = {d. valid_date d \<and> date_le c d \<and> date_le d e}"
      proof (intro set_eqI iffI)
        fix d assume "d \<in> set (c # ds)"
        then show "d \<in> {d. valid_date d \<and> date_le c d \<and> date_le d e}"
          using set_ds vc True date_le_refl date_le_trans [OF cle] by auto
      next
        fix d assume "d \<in> {d. valid_date d \<and> date_le c d \<and> date_le d e}"
        then have d: "valid_date d" "date_le c d" "date_le d e" by auto
        show "d \<in> set (c # ds)"
        proof (cases "d = c")
          case True then show ?thesis by simp
        next
          case False
          with d have "date_less c d" by (auto simp: date_less_def)
          from gap [OF d(1) this] d set_ds show ?thesis by simp
        qed
      qed
      have s2: "sorted_wrt date_less (c # ds)"
        using sorted_ds set_ds date_less_le_trans [OF cn] by auto
      have s3: "consecutive (c # ds)"
        unfolding consecutive_def
      proof (intro allI impI)
        fix i assume i: "Suc i < length (c # ds)"
        show "add_one_day ((c # ds) ! i) = Inr ((c # ds) ! Suc i)"
        proof (cases i)
          case 0
          with i have "ds \<noteq> []" by auto
          then have "hd ds \<in> set ds" by simp
          with set_ds have "date_le n e" using date_le_trans by blast
          from ends [OF this] have "ds ! 0 = n" by (auto simp: hd_conv_nth)
          with 0 n show ?thesis by simp
        next
          case (Suc j)
          with i cons_ds show ?thesis by (simp add: consecutive_def)
        qed
      qed
      have s4: "hd (c # ds) = c \<and> last (c # ds) = e"
      proof (cases "date_le n e")
        case True
        from ends [OF this] show ?thesis by simp
      next
        case False
        have "c = e"
        proof (rule ccontr)
          assume "c \<noteq> e"
          with \<open>date_le c e\<close> have "date_less c e" by (simp add: date_less_def)
          from gap [OF ve this] False show False by simp
        qed
        moreover from False set_ds have "ds = []"
          using date_le_trans by (cases ds) (auto simp: set_eq_iff)
        ultimately show ?thesis by simp
      qed
      from s1 s2 s3 s4 have "dates_between c e (c # ds)"
        by (simp add: dates_between_def)
      with res show ?thesis by blast
    qed
  qed
qed

lemma distinct_if_sorted_wrt_less: "sorted_wrt date_less ds \<Longrightarrow> distinct ds"
  by (induction ds) (auto simp: date_less_def)

lemma set_singleton_distinct: "set xs = {x} \<Longrightarrow> distinct xs \<Longrightarrow> xs = [x]"
proof (cases xs)
  case Nil
  assume "set xs = {x}"
  with Nil show ?thesis by simp
next
  case (Cons a as)
  assume s: "set xs = {x}" and d: "distinct xs"
  from s Cons have a: "a = x" by auto
  have "as = []"
  proof (cases as)
    case Nil
    then show ?thesis .
  next
    case (Cons b bs)
    with s \<open>xs = a # as\<close> have "b = x" by auto
    with a d \<open>xs = a # as\<close> Cons show ?thesis by simp
  qed
  with a Cons show ?thesis by simp
qed

text \<open>Whatever the two dates, a list that \<open>generate_dates\<close> returns is strictly ascending.\<close>

lemma dates_loop_sorted:
  fixes dummy :: "pydate list"
  shows "\<forall>ds. dates_loop c e [] = Inr ds \<longrightarrow>
           sorted_wrt date_less ds \<and> (\<forall>d \<in> set ds. date_le c d)"
proof (induction c e dummy rule: dates_loop.induct)
  case (1 c e dates)
  show ?case
  proof (intro allI impI)
    fix ds assume r: "dates_loop c e [] = Inr ds"
    show "sorted_wrt date_less ds \<and> (\<forall>d \<in> set ds. date_le c d)"
    proof (cases "date_le c e")
      case False
      with r show ?thesis by (simp add: dates_loop.simps)
    next
      case True
      show ?thesis
      proof (cases "add_one_day c")
        case (Inl x)
        with True r show ?thesis by (simp add: dates_loop.simps)
      next
        case (Inr n)
        from r dates_loop_step [OF True Inr] obtain ds' where
          ds': "dates_loop n e [] = Inr ds'" "ds = c # ds'"
          by (cases "dates_loop n e []") auto
        from "1.IH" [OF True Inr] ds'(1) have
          ih: "sorted_wrt date_less ds'" "\<forall>d \<in> set ds'. date_le n d"
          by auto
        have cn: "date_less c n" using Inr by (rule add_one_day_later)
        have "\<forall>d \<in> set ds'. date_less c d"
          using ih(2) date_less_le_trans [OF cn] by blast
        then show ?thesis
          using ih(1) ds'(2) date_le_refl by (auto simp: date_less_def)
      qed
    qed
  qed
qed

lemma generate_dates_sorted:
  assumes "generate_dates s e = Inr ds"
  shows "sorted_wrt date_less ds"
proof -
  from assms have "dates_loop s e [] = Inr ds"
    by (auto simp: generate_dates_def strptime_def split: if_splits)
  with dates_loop_sorted show ?thesis by blast
qed

text \<open>
  For two calendar dates of which the second is not 9999-12-31, \<open>generate_dates\<close> returns
  without raising: the list holds exactly the calendar dates from the start to the end
  inclusive, in ascending order and one day apart; it is the one date when start and end are
  equal, and the empty list when the start is after the end.
\<close>

lemma generate_dates_range:
  assumes "valid_date s" and "valid_date e" and "e \<noteq> last_date"
  shows "\<exists>ds. generate_dates s e = Inr ds \<and> dates_between s e ds \<and>
              (s = e \<longrightarrow> ds = [s]) \<and> (date_less e s \<longrightarrow> ds = [])"
proof -
  from dates_loop_correct assms obtain ds where
    ds: "dates_loop s e [] = Inr ds" and btw: "dates_between s e ds"
    by blast
  have g: "generate_dates s e = Inr ds"
    using assms(1,2) ds by (simp add: generate_dates_def strptime_def)
  have one: "ds = [s]" if "s = e"
  proof -
    have "set ds = {s}"
      using btw that assms(1) date_le_antisym date_le_refl
      by (auto simp: dates_between_def)
    moreover have "distinct ds"
      using btw distinct_if_sorted_wrt_less by (simp add: dates_between_def)
    ultimately show ?thesis by (rule set_singleton_distinct)
  qed
  have none: "ds = []" if "date_less e s"
  proof -
    have "\<not> date_le s e"
      using that date_le_antisym by (auto simp: date_less_def)
    with ds show ?thesis by (simp add: dates_loop.simps)
  qed
  from g btw one none show ?thesis by blast
qed

lemma generate_dates_range_example:
  "valid_date (jan 30) \<and> valid_date \<lparr>year = 2024, month = 2, day = 2\<rparr> \<and>
   \<lparr>year = 2024, month = 2, day = 2\<rparr> \<noteq> last_date \<and>
   (\<exists>ds. generate_dates (jan 30) \<lparr>year = 2024, month = 2, day = 2\<rparr> = Inr ds \<and>
         dates_between (jan 30) \<lparr>year = 2024, month = 2, day = 2\<rparr> ds \<and>
         hd ds = jan 30 \<and> length ds = 4)"
proof -
  let ?e = "\<lparr>year = 2024, month = 2, day = 2\<rparr>"
  have v1: "valid_date (jan 30)"
    by (simp add: jan_def valid_date_def MINYEAR_def MAXYEAR_def days_in_month_def)
  have v2: "valid_date ?e"
    by (simp add: valid_date_def MINYEAR_def MAXYEAR_def days_in_month_def is_leap_def)
  have ne: "?e \<noteq> last_date" by (simp add: last_date_def)
  have run: "generate_dates (jan 30) ?e = Inr [jan 30, jan 31,
      \<lparr>year = 2024, month = 2, day = 1\<rparr>, \<lparr>year = 2024, month = 2, day = 2\<rparr>]"
    by (simp add: generate_dates_def strptime_def valid_date_def MINYEAR_def MAXYEAR_def
        days_in_month_def is_leap_def dates_loop.simps date_le_def add_one_day_def jan_def)
  from generate_dates_range [OF v1 v2 ne] obtain ds where
    "generate_dates (jan 30) ?e = Inr ds" "dates_between (jan 30) ?e ds"
    by blast
  with run v1 v2 ne show ?thesis by auto
qed

text \<open>
  When the end is 9999-12-31, the loop reaches it, appends it, and then adds one day to it;
  no \<open>datetime\<close> is later than 9999-12-31, so the addition raises and the list built so
  far is lost. This is so whatever calendar date the start is.
\<close>

lemma dates_loop_to_last_date:
  fixes dummy :: "pydate list"
  shows "valid_date c \<longrightarrow> e = last_date \<longrightarrow> (\<forall>acc. dates_loop c e acc = Inl OverflowError)"
proof (induction c e dummy rule: dates_loop.induct)
  case (1 c e dates)
  show ?case
  proof (intro impI allI)
    fix acc
    assume vc: "valid_date c" and e: "e = last_date"
    from valid_le_last [OF vc] e have le: "date_le c e" by simp
    show "dates_loop c e acc = Inl OverflowError"
    proof (cases "c = last_date")
      case True
      then have "add_one_day c = Inl OverflowError"
        by (simp add: add_one_day_def last_date_def days_in_month_def MAXYEAR_def)
      with le show ?thesis by (simp add: dates_loop.simps [of c e acc])
    next
      case False
      from add_one_day_ok [OF vc False] obtain n where
        n: "add_one_day c = Inr n" and vn: "valid_date n"
        by blast
      from "1.IH" [OF le n] vn e have "dates_loop n e (acc @ [c]) = Inl OverflowError"
        by blast
      with le n show ?thesis by (simp add: dates_loop.simps [of c e acc])
    qed
  qed
qed

lemma generate_dates_to_last_date:
  assumes "valid_date s"
  shows "generate_dates s last_date = Inl OverflowError"
proof -
  have "valid_date last_date"
    by (simp add: last_date_def valid_date_def MINYEAR_def MAXYEAR_def days_in_month_def)
  with assms dates_loop_to_last_date [of s last_date] show ?thesis
    by (simp add: generate_dates_def strptime_def)
qed

text \<open>
  \<^bold>\<open>Claim C5\<close>. The claim asks of \<open>generate_dates\<close>, for every pair of valid
  dates with start = end, the list of that one date. With 9999-12-31, a valid date, as start
  and as end, the function raises \<open>OverflowError\<close> and returns no list.
\<close>

theorem generate_dates_last_day_raises:
  "valid_date \<lparr>year = 9999, month = 12, day = 31\<rparr> \<and>
   generate_dates \<lparr>year = 9999, month = 12, day = 31\<rparr> \<lparr>year = 9999, month = 12, day = 31\<rparr>
     = Inl OverflowError"
  by (simp add: generate_dates_def strptime_def valid_date_def MINYEAR_def MAXYEAR_def
      days_in_month_def dates_loop.simps date_le_def add_one_day_def)


section \<open>Properties of the date text and of \<open>generate_content\<close>\<close>

lemma dec_1: "n < 10 \<Longrightarrow> dec n = [48 + n]"
  by (simp add: dec.simps [of n])

lemma dec_2: "10 \<le> n \<Longrightarrow> n < 100 \<Longrightarrow> dec n = [48 + n div 10, 48 + n mod 10]"
  by (simp add: dec.simps [of n] dec_1)

lemma dec_3:
  "100 \<le> n \<Longrightarrow> n < 1000 \<Longrightarrow> dec n = [48 + n div 100, 48 + n div 10 mod 10, 48 + n mod 10]"
  by (simp add: dec.simps [of n] dec_2 div_mult2_eq [symmetric])

lemma dec_4:
  "1000 \<le> n \<Longrightarrow> n < 10000 \<Longrightarrow>
   dec n = [48 + n div 1000, 48 + n div 100 mod 10, 48 + n div 10 mod 10, 48 + n mod 10]"
  by (simp add: dec.simps [of n] dec_3 div_mult2_eq [symmetric])

lemma format_0d_2:
  assumes "0 \<le> i" and "i < 100"
  shows "format_0d 2 i = [48 + nat i div 10, 48 + nat i mod 10]"
proof (cases "nat i < 10")
  case True
  with assms show ?thesis by (simp add: format_0d_def dec_1)
next
  case False
  with assms show ?thesis by (simp add: format_0d_def dec_2)
qed

lemma format_0d_3_small:
  assumes "0 \<le> i" and "i < 1000"
  shows "format_0d 3 i = [48 + nat i div 100, 48 + nat i div 10 mod 10, 48 + nat i mod 10]"
proof -
  consider "nat i < 10" | "10 \<le> nat i" "nat i < 100" | "100 \<le> nat i" "nat i < 1000"
    using assms by linarith
  then show ?thesis
  proof cases
    case 1
    with assms show ?thesis by (simp add: format_0d_def dec_1 numeral_3_eq_3)
  next
    case 2
    with assms show ?thesis by (simp add: format_0d_def dec_2)
  next
    case 3
    with assms show ?thesis by (simp add: format_0d_def dec_3)
  qed
qed

lemma format_0d_3_large:
  assumes "1000 \<le> i" and "i < 10000"
  shows "format_0d 3 i =
     [48 + nat i div 1000, 48 + nat i div 100 mod 10, 48 + nat i div 10 mod 10, 48 + nat i mod 10]"
  using assms by (simp add: format_0d_def dec_4)

lemma mod_10_le_9: "(n::nat) mod 10 \<le> 9"
  by arith

text \<open>
  \<^bold>\<open>Claim C3\<close>, as amended. For a calendar date with a year after 1911 the
  text is made of decimal digits only: the year minus 1911 in at least three digits (three up
  to the year 2910, four from 2911 on), then the month in two digits and the day in two. It
  has seven characters up to the year 2910 and eight after. The code point of the digit
  \<open>k\<close> is \<open>48 + k\<close>.
\<close>

theorem formatted_date_digits:
  assumes "valid_date d" and "1911 < year d"
  shows "formatted_date d =
           (let y = nat (year d - 1911); m = nat (month d); n = nat (day d)
            in (if year d \<le> 2910
                then [48 + y div 100, 48 + y div 10 mod 10, 48 + y mod 10]
                else [48 + y div 1000, 48 + y div 100 mod 10, 48 + y div 10 mod 10, 48 + y mod 10])
               @ [48 + m div 10, 48 + m mod 10, 48 + n div 10, 48 + n mod 10])
         \<and> length (formatted_date d) = (if year d \<le> 2910 then 7 else 8)
         \<and> (\<forall>c \<in> set (formatted_date d). 48 \<le> c \<and> c \<le> 57)"
proof -
  from assms(1) have m: "0 \<le> month d" "month d < 100" and n: "0 \<le> day d" "day d < 100"
    and y: "year d \<le> 9999"
    using dim_bounds [of "year d" "month d"] by (auto simp: valid_date_def MAXYEAR_def)
  have mm: "nat (month d) div 10 < 10" and nn: "nat (day d) div 10 < 10"
    using m n by auto
  show ?thesis
  proof (cases "year d \<le> 2910")
    case True
    with assms(2) have r: "0 \<le> year d - 1911" "year d - 1911 < 1000" by auto
    then have "nat (year d - 1911) div 100 < 10" by auto
    then show ?thesis
      using True mm nn mod_10_le_9
      by (simp add: formatted_date_def Let_def format_0d_2 [OF m] format_0d_2 [OF n]
          format_0d_3_small [OF r])
  next
    case False
    with y have r: "1000 \<le> year d - 1911" "year d - 1911 < 10000" by auto
    then have "nat (year d - 1911) div 1000 < 10" by auto
    then show ?thesis
      using False mm nn mod_10_le_9
      by (simp add: formatted_date_def Let_def format_0d_2 [OF m] format_0d_2 [OF n]
          format_0d_3_large [OF r])
  qed
qed

theorem formatted_date_digits_witness:
  "valid_date \<lparr>year = 2024, month = 3, day = 5\<rparr> \<and> 1911 < year \<lparr>year = 2024, month = 3, day = 5\<rparr>
   \<and> formatted_date \<lparr>year = 2024, month = 3, day = 5\<rparr> = ascii ''1130305''
   \<and> valid_date \<lparr>year = 1999, month = 12, day = 31\<rparr>
   \<and> 1911 < year \<lparr>year = 1999, month = 12, day = 31\<rparr>
   \<and> formatted_date \<lparr>year = 1999, month = 12, day = 31\<rparr> = ascii ''0881231''"
proof -
  let ?a = "\<lparr>year = 2024, month = 3, day = 5\<rparr>"
  let ?b = "\<lparr>year = 1999, month = 12, day = 31\<rparr>"
  have va: "valid_date ?a" and vb: "valid_date ?b"
    by (simp_all add: valid_date_def MINYEAR_def MAXYEAR_def days_in_month_def)
  have ya: "1911 < year ?a" and yb: "1911 < year ?b" by simp_all
  from formatted_date_digits [OF va ya, THEN conjunct1]
  have "formatted_date ?a = ascii ''1130305''"
    by (simp add: ascii_def Let_def)
  moreover from formatted_date_digits [OF vb yb, THEN conjunct1]
  have "formatted_date ?b = ascii ''0881231''"
    by (simp add: ascii_def Let_def)
  ultimately show ?thesis using va vb by simp
qed

theorem formatted_date_length_counterexample:
  "valid_date \<lparr>year = 2911, month = 1, day = 1\<rparr> \<and> 1911 < year \<lparr>year = 2911, month = 1, day = 1\<rparr>
   \<and> formatted_date \<lparr>year = 2911, month = 1, day = 1\<rparr> = ascii ''10000101''
   \<and> length (formatted_date \<lparr>year = 2911, month = 1, day = 1\<rparr>) \<noteq> 7"
  by (simp add: valid_date_def MINYEAR_def MAXYEAR_def days_in_month_def ascii_def
      formatted_date_def format_0d_2 format_0d_3_large)

lemma dropWhile_split: "\<exists>pre. xs = pre @ dropWhile P xs \<and> list_all P pre"
proof
  show "xs = takeWhile P xs @ dropWhile P xs \<and> list_all P (takeWhile P xs)"
    by (simp add: list_all_iff) (meson set_takeWhileD)
qed

lemma strip_split:
  "\<exists>pre suf. s = pre @ strip s @ suf \<and> list_all isspace pre \<and> list_all isspace suf"
proof -
  obtain pre where pre: "s = pre @ dropWhile isspace s" "list_all isspace pre"
    using dropWhile_split by blast
  obtain suf where suf: "rev (dropWhile isspace s) = suf @ dropWhile isspace (rev (dropWhile isspace s))"
    "list_all isspace suf"
    using dropWhile_split by blast
  from suf(1) have "dropWhile isspace s = strip s @ rev suf"
    unfolding strip_def by (metis rev_append rev_rev_ident)
  with pre have "s = pre @ strip s @ rev suf" by simp
  moreover have "list_all isspace (rev suf)" using suf(2) by (simp add: list_all_iff)
  ultimately show ?thesis using pre(2) by blast
qed

lemma dropWhile_id: "xs = [] \<or> \<not> P (hd xs) \<Longrightarrow> dropWhile P xs = xs"
  by (cases xs) auto

lemma last_dropWhile: "dropWhile P xs \<noteq> [] \<Longrightarrow> last (dropWhile P xs) = last xs"
  by (metis last_appendR takeWhile_dropWhile_id)

lemma strip_ends: "strip s = [] \<or> (\<not> isspace (hd (strip s)) \<and> \<not> isspace (last (strip s)))"
proof (cases "strip s = []")
  case True
  then show ?thesis by simp
next
  case False
  let ?t = "dropWhile isspace s"
  let ?u = "dropWhile isspace (rev ?t)"
  from False have u: "?u \<noteq> []" by (simp add: strip_def)
  have t: "?t \<noteq> []"
  proof
    assume "?t = []"
    then have "?u = []" by (simp only: rev.simps dropWhile.simps)
    with u show False by (simp only: not_True_eq_False simp_thms)
  qed
  have "last (strip s) = hd ?u" using u by (simp add: strip_def last_rev)
  moreover have "\<not> isspace (hd ?u)" using u by (rule hd_dropWhile)
  moreover have "hd (strip s) = last ?u" using u by (simp add: strip_def hd_rev)
  moreover have "last ?u = last (rev ?t)" using u by (rule last_dropWhile)
  moreover have "last (rev ?t) = hd ?t" using t by (simp add: last_rev)
  moreover have "\<not> isspace (hd ?t)" using t by (rule hd_dropWhile)
  ultimately show ?thesis by simp
qed

lemma strip_id_iff: "strip s = s \<longleftrightarrow> s = [] \<or> (\<not> isspace (hd s) \<and> \<not> isspace (last s))"
proof
  assume "strip s = s"
  with strip_ends [of s] show "s = [] \<or> (\<not> isspace (hd s) \<and> \<not> isspace (last s))" by simp
next
  assume a: "s = [] \<or> (\<not> isspace (hd s) \<and> \<not> isspace (last s))"
  show "strip s = s"
  proof (cases "s = []")
    case True
    then show ?thesis by (simp add: strip_def)
  next
    case False
    with a have h: "\<not> isspace (hd s)" and l: "\<not> isspace (last s)" by auto
    from h have "dropWhile isspace s = s" by (simp add: dropWhile_id)
    moreover from l False have "dropWhile isspace (rev s) = rev s"
      by (simp add: dropWhile_id hd_rev)
    ultimately show ?thesis by (simp add: strip_def)
  qed
qed

text \<open>
  \<open>generate_content\<close> does not look at the day index, so the content is the same for
  all days of a range. What it returns is the base content without its leading and trailing
  white space: the base content is the result with white space around it, the result neither
  starts nor ends with white space, and the two are equal exactly when the base content is
  empty or starts and ends with something else.
\<close>

lemma generate_content_strips:
  "generate_content b i = generate_content b j \<and>
   (\<exists>pre suf. b = pre @ generate_content b i @ suf \<and> list_all isspace pre \<and> list_all isspace suf) \<and>
   (generate_content b i = [] \<or>
      (\<not> isspace (hd (generate_content b i)) \<and> \<not> isspace (last (generate_content b i)))) \<and>
   (generate_content b i = b \<longleftrightarrow> b = [] \<or> (\<not> isspace (hd b) \<and> \<not> isspace (last b)))"
proof (intro conjI)
  show "generate_content b i = generate_content b j"
    by (simp add: generate_content_def)
  show "\<exists>pre suf. b = pre @ generate_content b i @ suf \<and>
          list_all isspace pre \<and> list_all isspace suf"
    unfolding generate_content_def by (rule strip_split)
  show "generate_content b i = [] \<or>
      (\<not> isspace (hd (generate_content b i)) \<and> \<not> isspace (last (generate_content b i)))"
    unfolding generate_content_def by (rule strip_ends)
  show "generate_content b i = b \<longleftrightarrow> b = [] \<or> (\<not> isspace (hd b) \<and> \<not> isspace (last b))"
    unfolding generate_content_def by (rule strip_id_iff)
qed

lemma generate_content_strips_example:
  "generate_content (ascii ''work'') 0 = ascii ''work'' \<and>
   generate_content (ascii ''work'') 0 = generate_content (ascii ''work'') 6"
proof -
  have "ascii ''work'' = [] \<or>
        (\<not> isspace (hd (ascii ''work'')) \<and> \<not> isspace (last (ascii ''work'')))"
    by (simp add: ascii_def isspace_def)
  then have "generate_content (ascii ''work'') 0 = ascii ''work''"
    by (rule generate_content_strips [of "ascii ''work''" 0 6,
          THEN conjunct2, THEN conjunct2, THEN conjunct2, THEN iffD2])
  moreover from generate_content_strips [of "ascii ''work''" 0 6]
  have "generate_content (ascii ''work'') 0 = generate_content (ascii ''work'') 6"
    by (rule conjunct1)
  ultimately show ?thesis by (rule conjI)
qed

text \<open>
  \<^bold>\<open>Claim C8\<close>. The claim, and the description of the function in its own
  source (return the work content as it is, without changing it), ask for the base content
  unchanged. For the base content \<open>' work'\<close>, with a space in front, the function returns
  \<open>'work'\<close>, which is another string.
\<close>

theorem generate_content_drops_space:
  "generate_content (ascii '' work'') 0 = ascii ''work'' \<and>
   generate_content (ascii '' work'') 0 \<noteq> ascii '' work''"
  by (simp add: generate_content_def strip_def ascii_def isspace_def)


section \<open>Properties of the batch driver\<close>

subsection \<open>What a trace says about a list of events put together\<close>

lemma progress_events_append [simp]:
  "progress_events (xs @ ys) = progress_events xs @ progress_events ys"
  by (induction xs rule: progress_events.induct) simp_all

lemma fills_append [simp]: "fills (xs @ ys) = fills xs @ fills ys"
  by (induction xs rule: fills.induct) simp_all

lemma polls_append [simp]: "polls (xs @ ys) = polls xs @ polls ys"
  by (induction xs rule: polls.induct) simp_all

lemma outcomes_append [simp]: "outcomes (xs @ ys) = outcomes xs @ outcomes ys"
  by (induction xs rule: outcomes.induct) simp_all

lemma navigations_append [simp]: "navigations (xs @ ys) = navigations xs @ navigations ys"
  by (induction xs rule: navigations.induct) simp_all

lemma poll_events_simps [simp]:
  "progress_events (poll_events scb) = []"
  "outcomes (poll_events scb) = []"
  "fills (poll_events scb) = []"
  "navigations (poll_events scb) = []"
  "polls (poll_events scb) = (case scb of None \<Rightarrow> [] | Some f \<Rightarrow> [Inr True])"
  by (simp_all add: poll_events_def split: option.splits)

lemma day_progress_simps [simp]:
  "fills (day_progress pcb c n r) = []"
  "outcomes (day_progress pcb c n r) = []"
  "polls (day_progress pcb c n r) = []"
  "navigations (day_progress pcb c n r) = []"
  "progress_events (day_progress pcb c n r) =
     (case pcb of None \<Rightarrow> [] | Some f \<Rightarrow> [(c, n, success r, failed r)])"
  by (simp_all add: day_progress_def split: option.splits)

subsection \<open>The steps of the loop body\<close>

lemma check_stop_effect:
  assumes "check_stop scb s = (r, s1)"
  shows "res s1 = res s \<and>
         (case scb of None \<Rightarrow> r = Inr False \<and> trace s1 = trace s
          | Some f \<Rightarrow> trace s1 = trace s @ [EStop (map_sum id Not r)])"
proof (cases scb)
  case None
  with assms show ?thesis by (auto simp: check_stop_def)
next
  case (Some f)
  obtain r0 w where "f (world s) = (r0, w)" by (cases "f (world s)")
  with Some assms have "r = map_sum id Not r0" "s1 = s\<lparr>trace := trace s @ [EStop r0], world := w\<rparr>"
    by (auto simp: check_stop_def)
  moreover have "map_sum id Not (map_sum id Not r0) = r0" by (cases r0) auto
  ultimately show ?thesis using Some by simp
qed

lemma emit_progress_effect:
  assumes "emit_progress pcb c n s = (r, s1)"
  shows "res s1 = res s \<and> trace s1 = trace s @ day_progress pcb c n (res s) \<and>
         (pcb = None \<longrightarrow> r = Inr ())"
proof (cases pcb)
  case None
  with assms show ?thesis by (auto simp: emit_progress_def day_progress_def)
next
  case (Some f)
  obtain r0 w where "f c n (success (res s)) (failed (res s)) (world s) = (r0, w)"
    by (cases "f c n (success (res s)) (failed (res s)) (world s)")
  with Some assms show ?thesis by (auto simp: emit_progress_def day_progress_def)
qed

lemma renavigate_effect:
  assumes "renavigate self n i s = (r, s1)"
  shows "res s1 = res s \<and>
         (if i < n - 1
          then (case sleep (bot_delay self) of
                  Inl e \<Rightarrow> r = Some e \<and> trace s1 = trace s
                | Inr u \<Rightarrow> r = None \<and> (\<exists>nr. trace s1 = trace s @ [ENavigate nr]))
          else r = None \<and> trace s1 = trace s)"
proof (cases "i < n - 1")
  case False
  with assms show ?thesis by (auto simp: renavigate_def)
next
  case True
  show ?thesis
  proof (cases "sleep (bot_delay self)")
    case (Inl e)
    with True assms show ?thesis by (auto simp: renavigate_def)
  next
    case (Inr u)
    obtain nr w where "bot_navigate_to_journal self (world s) = (nr, w)"
      by (cases "bot_navigate_to_journal self (world s)")
    with True Inr assms show ?thesis by (auto simp: renavigate_def)
  qed
qed

text \<open>
  The six ways through the loop body, each with what it leaves in the results and in the
  trace: the cancellation predicate faults; it asks to stop; the progress sink faults; the
  submission faults; the wait before the next day faults, the delay being negative or too
  long; the day is done.
\<close>

lemma process_date_cases:
  assumes "process_date self base pcb scb n i d s = (x, s')"
  shows
    "(\<exists>e. x = Raised e \<and> scb \<noteq> None \<and> res s' = res s \<and> trace s' = trace s @ [EStop (Inl e)]) \<or>
     (x = Broken \<and> scb \<noteq> None \<and> res s' = res s \<and> trace s' = trace s @ [EStop (Inr False)]) \<or>
     (\<exists>e. x = Raised e \<and> pcb \<noteq> None \<and> res s' = res s \<and>
          trace s' = trace s @ poll_events scb @ day_progress pcb (i + 1) n (res s)) \<or>
     (\<exists>e. x = Raised e \<and> res s' = res s \<and>
          trace s' = trace s @ poll_events scb @ day_progress pcb (i + 1) n (res s) @
                     [EFill d (generate_content base i) (Inl e)]) \<or>
     (\<exists>e ok. x = Raised e \<and> i < n - 1 \<and> sleep (bot_delay self) = Inl e \<and>
          res s' = record_result (res s) d (generate_content base i) (bot_school_id self) ok \<and>
          trace s' = trace s @ poll_events scb @ day_progress pcb (i + 1) n (res s) @
                     [EFill d (generate_content base i) (Inr ok)]) \<or>
     (\<exists>ok nav. x = Next \<and>
          res s' = record_result (res s) d (generate_content base i) (bot_school_id self) ok \<and>
          trace s' = trace s @ poll_events scb @ day_progress pcb (i + 1) n (res s) @
                     [EFill d (generate_content base i) (Inr ok)] @ nav \<and>
          (if i < n - 1 then sleep (bot_delay self) = Inr () \<and> (\<exists>r. nav = [ENavigate r])
                else nav = []))"
proof -
  let ?c = "generate_content base i"
  obtain r1 s1 where cs: "check_stop scb s = (r1, s1)" by (cases "check_stop scb s")
  note e1 = check_stop_effect [OF cs]
  show ?thesis
  proof (cases r1)
    case (Inl e)
    with cs assms have "x = Raised e" "s' = s1" by (auto simp: process_date_def)
    moreover from e1 Inl have "scb \<noteq> None" by (auto split: option.splits)
    ultimately show ?thesis using e1 Inl by (auto split: option.splits)
  next
    case (Inr brk)
    show ?thesis
    proof (cases brk)
      case True
      with Inr cs assms have "x = Broken" "s' = s1" by (auto simp: process_date_def)
      moreover from e1 Inr True have "scb \<noteq> None" by (auto split: option.splits)
      ultimately show ?thesis using e1 Inr True by (auto split: option.splits)
    next
      case False
      from e1 Inr False have t1: "res s1 = res s" "trace s1 = trace s @ poll_events scb"
        by (auto simp: poll_events_def split: option.splits)
      obtain r2 s2 where ep: "emit_progress pcb (i + 1) n s1 = (r2, s2)"
        by (cases "emit_progress pcb (i + 1) n s1")
      note e2 = emit_progress_effect [OF ep]
      from e2 t1 have t2: "res s2 = res s"
        "trace s2 = trace s @ poll_events scb @ day_progress pcb (i + 1) n (res s)"
        by auto
      show ?thesis
      proof (cases r2)
        case (Inl e)
        with Inr False cs ep assms have "x = Raised e" "s' = s2"
          by (auto simp: process_date_def)
        moreover from e2 Inl have "pcb \<noteq> None" by auto
        ultimately show ?thesis using t2 by auto
      next
        case r2: (Inr u)
        obtain r3 w where fl: "bot_fill_journal_entry self d ?c (world s2) = (r3, w)"
          by (cases "bot_fill_journal_entry self d ?c (world s2)")
        show ?thesis
        proof (cases r3)
          case (Inl e)
          with r2 Inr False cs ep fl assms have "x = Raised e"
            "s' = s2\<lparr>trace := trace s2 @ [EFill d ?c (Inl e)], world := w\<rparr>"
            by (auto simp: process_date_def)
          then show ?thesis using t2 by auto
        next
          case r3: (Inr ok)
          let ?s3 = "s2\<lparr>res := record_result (res s2) d ?c (bot_school_id self) ok,
                        trace := trace s2 @ [EFill d ?c (Inr ok)], world := w\<rparr>"
          obtain r4 s4 where rn: "renavigate self n i ?s3 = (r4, s4)"
            by (cases "renavigate self n i ?s3")
          note e4 = renavigate_effect [OF rn]
          from r3 r2 Inr False cs ep fl rn assms
          have x: "(x, s') = (case r4 of Some e \<Rightarrow> (Raised e, s4) | None \<Rightarrow> (Next, s4))"
            by (auto simp: process_date_def Let_def)
          from e4 t2 have res4: "res s4 = record_result (res s) d ?c (bot_school_id self) ok"
            by simp
          show ?thesis
          proof (cases r4)
            case None
            with x have "x = Next" "s' = s4" by auto
            moreover from e4 None t2 have
              "\<exists>nav. trace s4 = trace s @ poll_events scb @ day_progress pcb (i + 1) n (res s) @
                     [EFill d ?c (Inr ok)] @ nav \<and>
               (if i < n - 1 then sleep (bot_delay self) = Inr () \<and> (\<exists>r. nav = [ENavigate r])
                else nav = [])"
              by (auto split: if_splits sum.splits)
            ultimately show ?thesis using res4 by blast
          next
            case (Some e)
            with x have "x = Raised e" "s' = s4" by auto
            moreover from e4 Some t2 have "i < n - 1" "sleep (bot_delay self) = Inl e"
              "trace s4 = trace s @ poll_events scb @ day_progress pcb (i + 1) n (res s) @
                     [EFill d ?c (Inr ok)]"
              by (auto split: if_splits sum.splits)
            ultimately show ?thesis using res4 by blast
          qed
        qed
      qed
    qed
  qed
qed

lemma record_result_simps [simp]:
  "total (record_result r d c sid ok) = total r"
  "details (record_result r d c sid ok) =
     details r @ [\<lparr>d_date = d, d_content = c, d_school_id = sid, d_success = ok\<rparr>]"
  "success (record_result r d c sid ok) = success r + (if ok then 1 else 0)"
  "failed (record_result r d c sid ok) = failed r + (if ok then 0 else 1)"
  by (simp_all add: record_result_def Let_def)

text \<open>The view of \<open>process_date_cases\<close> on the results alone.\<close>

lemma process_date_results:
  assumes "process_date self base pcb scb n i d s = (x, s')"
  shows "(x \<noteq> Next \<and> res s' = res s) \<or>
         (x \<noteq> Broken \<and>
            (\<exists>ok. res s' = record_result (res s) d (generate_content base i) (bot_school_id self) ok))"
  using process_date_cases [OF assms] by (elim disjE exE conjE) (simp_all, blast+)

lemma process_date_Next:
  assumes "process_date self base pcb scb n i d s = (Next, s')"
  shows "\<exists>ok nav. res s' = record_result (res s) d (generate_content base i) (bot_school_id self) ok \<and>
           trace s' = trace s @ poll_events scb @ day_progress pcb (i + 1) n (res s) @
                     [EFill d (generate_content base i) (Inr ok)] @ nav \<and>
           (if i < n - 1 then sleep (bot_delay self) = Inr () \<and> (\<exists>r. nav = [ENavigate r])
                else nav = [])"
  using process_date_cases [OF assms] by (elim disjE exE conjE) blast+

lemma for_dates_Cons_cases:
  assumes "for_dates self base pcb scb n i (d # ds) s = (x, s')"
  shows "(x \<noteq> Next \<and> process_date self base pcb scb n i d s = (x, s')) \<or>
         (\<exists>s1. process_date self base pcb scb n i d s = (Next, s1) \<and>
               for_dates self base pcb scb n (i + 1) ds s1 = (x, s'))"
proof -
  obtain x1 s1 where p: "process_date self base pcb scb n i d s = (x1, s1)"
    by (cases "process_date self base pcb scb n i d s")
  with assms show ?thesis by (cases x1) auto
qed


subsection \<open>The results after the loop\<close>

text \<open>
  The loop appends one record for each of the first dates of its list, in their order, and
  the two counters go up by the numbers of the new records with and without success.
\<close>

lemma for_dates_results:
  assumes "for_dates self base pcb scb n i ds s = (x, s')"
  shows "\<exists>new. details (res s') = details (res s) @ new \<and> length new \<le> length ds \<and>
           map d_date new = take (length new) ds \<and>
           success (res s') = success (res s) + int (length (filter d_success new)) \<and>
           failed (res s') = failed (res s) + int (length (filter (\<lambda>r. \<not> d_success r) new)) \<and>
           total (res s') = total (res s) \<and>
           (x = Next \<longrightarrow> length new = length ds)"
  using assms
proof (induction ds arbitrary: i s)
  case Nil
  then show ?case by simp
next
  case (Cons d ds)
  let ?c = "generate_content base i"
  let ?rec = "\<lambda>ok. \<lparr>d_date = d, d_content = ?c, d_school_id = bot_school_id self, d_success = ok\<rparr>"
  from for_dates_Cons_cases [OF Cons.prems] show ?case
  proof (elim disjE exE conjE)
    assume x: "x \<noteq> Next" and p: "process_date self base pcb scb n i d s = (x, s')"
    from process_date_results [OF p] show ?thesis
    proof (elim disjE exE conjE)
      assume "res s' = res s"
      with x show ?thesis by simp
    next
      fix ok
      assume "res s' = record_result (res s) d ?c (bot_school_id self) ok"
      with x have "details (res s') = details (res s) @ [?rec ok] \<and> length [?rec ok] \<le> length (d # ds) \<and>
           map d_date [?rec ok] = take (length [?rec ok]) (d # ds) \<and>
           success (res s') = success (res s) + int (length (filter d_success [?rec ok])) \<and>
           failed (res s') = failed (res s) + int (length (filter (\<lambda>r. \<not> d_success r) [?rec ok])) \<and>
           total (res s') = total (res s) \<and>
           (x = Next \<longrightarrow> length [?rec ok] = length (d # ds))"
        by simp
      then show ?thesis by blast
    qed
  next
    fix s1
    assume p: "process_date self base pcb scb n i d s = (Next, s1)"
      and f: "for_dates self base pcb scb n (i + 1) ds s1 = (x, s')"
    from process_date_Next [OF p] obtain ok where
      r1: "res s1 = record_result (res s) d ?c (bot_school_id self) ok"
      by blast
    from Cons.IH [OF f] obtain new where new:
      "details (res s') = details (res s1) @ new" "length new \<le> length ds"
      "map d_date new = take (length new) ds"
      "success (res s') = success (res s1) + int (length (filter d_success new))"
      "failed (res s') = failed (res s1) + int (length (filter (\<lambda>r. \<not> d_success r) new))"
      "total (res s') = total (res s1)"
      "x = Next \<longrightarrow> length new = length ds"
      by blast
    from r1 new have "details (res s') = details (res s) @ (?rec ok # new) \<and>
           length (?rec ok # new) \<le> length (d # ds) \<and>
           map d_date (?rec ok # new) = take (length (?rec ok # new)) (d # ds) \<and>
           success (res s') = success (res s) + int (length (filter d_success (?rec ok # new))) \<and>
           failed (res s') =
             failed (res s) + int (length (filter (\<lambda>r. \<not> d_success r) (?rec ok # new))) \<and>
           total (res s') = total (res s) \<and>
           (x = Next \<longrightarrow> length (?rec ok # new) = length (d # ds))"
      by simp
    then show ?thesis by blast
  qed
qed

text \<open>The final progress report changes neither the results nor what was submitted.\<close>

lemma emit_progress_res [simp]: "res (snd (emit_progress pcb c n s)) = res s"
  using emit_progress_effect [of pcb c n s] by (cases "emit_progress pcb c n s") simp

lemma emit_progress_trace:
  "trace (snd (emit_progress pcb c n s)) = trace s @ day_progress pcb c n (res s)"
  using emit_progress_effect [of pcb c n s] by (cases "emit_progress pcb c n s") simp

text \<open>
  The state at the end of the \<open>try\<close> block: either the loop was never entered, and the
  results are the initial ones but for \<open>total\<close>, or it is the state after the loop and,
  unless the loop raised, the final progress report.
\<close>

lemma try_block_cases:
  fixes self :: "'w bot" and sd ed base pcb scb s0
  defines "s \<equiv> try_block self sd ed base pcb scb s0"
  shows "(res s = res s0 \<and> (\<exists>r. trace s = trace s0 @ [ELogin r] \<and> r \<noteq> Inr True)) \<or>
         (res s = res s0 \<and> (\<exists>r. trace s = trace s0 @ [ELogin (Inr True), ENavigate r] \<and> r \<noteq> Inr True)) \<or>
         (res s = res s0 \<and> trace s = trace s0 @ [ELogin (Inr True), ENavigate (Inr True)] \<and>
            (\<exists>e. generate_dates sd ed = Inl e)) \<or>
         (res s = (res s0)\<lparr>total := 0\<rparr> \<and>
            trace s = trace s0 @ [ELogin (Inr True), ENavigate (Inr True)] \<and>
            generate_dates sd ed = Inr []) \<or>
         (\<exists>dates s3 x s4. generate_dates sd ed = Inr dates \<and> dates \<noteq> [] \<and>
            res s3 = (res s0)\<lparr>total := int (length dates)\<rparr> \<and>
            trace s3 = trace s0 @ [ELogin (Inr True), ENavigate (Inr True)] \<and>
            for_dates self base pcb scb (int (length dates)) 0 dates s3 = (x, s4) \<and>
            res s = res s4 \<and>
            trace s = trace s4 @
              (case x of Raised e \<Rightarrow> []
               | _ \<Rightarrow> day_progress pcb (int (length dates)) (int (length dates)) (res s4)))"
proof -
  obtain r1 w1 where l: "bot_login self (world s0) = (r1, w1)"
    by (cases "bot_login self (world s0)")
  let ?s1 = "s0\<lparr>trace := trace s0 @ [ELogin r1], world := w1\<rparr>"
  show ?thesis
  proof (cases "r1 = Inr True")
    case False
    with l have "s = ?s1"
      unfolding s_def try_block_def by (auto simp: Let_def split: sum.splits bool.splits)
    with False show ?thesis by simp
  next
    case login: True
    obtain r2 w2 where nv: "bot_navigate_to_journal self w1 = (r2, w2)"
      by (cases "bot_navigate_to_journal self w1")
    let ?s2 = "?s1\<lparr>trace := trace ?s1 @ [ENavigate r2], world := w2\<rparr>"
    show ?thesis
    proof (cases "r2 = Inr True")
      case False
      with l nv login have "s = ?s2"
        unfolding s_def try_block_def by (auto simp: Let_def split: sum.splits bool.splits)
      with False login show ?thesis by simp
    next
      case nav: True
      show ?thesis
      proof (cases "generate_dates sd ed")
        case (Inl e)
        with l nv login nav have "s = ?s2"
          unfolding s_def try_block_def by (simp add: Let_def)
        with Inl login nav show ?thesis by simp
      next
        case (Inr dates)
        let ?n = "int (length dates)"
        let ?s3 = "?s2\<lparr>res := (res ?s2)\<lparr>total := ?n\<rparr>\<rparr>"
        show ?thesis
        proof (cases "dates = []")
          case True
          with Inr l nv login nav have "s = ?s3"
            unfolding s_def try_block_def by (simp add: Let_def)
          with True Inr login nav show ?thesis by simp
        next
          case False
          obtain x s4 where fd: "for_dates self base pcb scb ?n 0 dates ?s3 = (x, s4)"
            by (cases "for_dates self base pcb scb ?n 0 dates ?s3")
          have "s = (case x of Raised e \<Rightarrow> s4 | _ \<Rightarrow> snd (emit_progress pcb ?n ?n s4))"
            using False Inr l nv login nav fd
            unfolding s_def try_block_def by (cases x) (simp_all add: Let_def)
          then have "res s = res s4 \<and>
            trace s = trace s4 @ (case x of Raised e \<Rightarrow> [] | _ \<Rightarrow> day_progress pcb ?n ?n (res s4))"
            by (cases x) (simp_all add: emit_progress_trace)
          moreover have "res ?s3 = (res s0)\<lparr>total := ?n\<rparr>"
            "trace ?s3 = trace s0 @ [ELogin (Inr True), ENavigate (Inr True)]"
            using login nav by simp_all
          ultimately show ?thesis using Inr False fd by blast
        qed
      qed
    qed
  qed
qed

lemma auto_fill_journals_res:
  "res (auto_fill_journals self sd ed base pcb scb w) =
   res (try_block self sd ed base pcb scb
          \<lparr>res = \<lparr>total = 0, success = 0, failed = 0, details = []\<rparr>, trace = [], world = w\<rparr>)"
  by (simp add: auto_fill_journals_def Let_def)

lemma auto_fill_journals_trace:
  "trace (auto_fill_journals self sd ed base pcb scb w) =
   trace (try_block self sd ed base pcb scb
          \<lparr>res = \<lparr>total = 0, success = 0, failed = 0, details = []\<rparr>, trace = [], world = w\<rparr>)
   @ [EQuit]"
  by (simp add: auto_fill_journals_def Let_def)

text \<open>
  A pass through the loop body leaves the results as they are, or appends one record, for
  the date of the pass, and adds one to one of the two counters: to \<open>success\<close> when the
  record says success and to \<open>failed\<close> when it does not.
\<close>

lemma process_date_one_record:
  assumes "process_date self base pcb scb n i d s = (x, s')"
  shows "res s' = res s \<or>
         (\<exists>ok. details (res s') =
                  details (res s) @ [\<lparr>d_date = d, d_content = generate_content base i,
                                     d_school_id = bot_school_id self, d_success = ok\<rparr>] \<and>
               success (res s') = success (res s) + (if ok then 1 else 0) \<and>
               failed (res s') = failed (res s) + (if ok then 0 else 1) \<and>
               total (res s') = total (res s))"
  using process_date_results [OF assms]
proof (elim disjE exE conjE)
  assume "res s' = res s"
  then show ?thesis by (rule disjI1)
next
  fix ok
  assume "res s' = record_result (res s) d (generate_content base i) (bot_school_id self) ok"
  then have "details (res s') =
                  details (res s) @ [\<lparr>d_date = d, d_content = generate_content base i,
                                     d_school_id = bot_school_id self, d_success = ok\<rparr>] \<and>
               success (res s') = success (res s) + (if ok then 1 else 0) \<and>
               failed (res s') = failed (res s) + (if ok then 0 else 1) \<and>
               total (res s') = total (res s)"
    by simp
  then show ?thesis by (intro disjI2 exI)
qed

lemma filter_lengths:
  "length (filter P xs) + length (filter (\<lambda>x. \<not> P x) xs) = length xs"
  by (induction xs) simp_all

lemma try_block_results:
  fixes self :: "'w bot" and w :: 'w and sd ed base pcb scb
  defines "r \<equiv> res (try_block self sd ed base pcb scb
      \<lparr>res = \<lparr>total = 0, success = 0, failed = 0, details = []\<rparr>, trace = [], world = w\<rparr>)"
  shows "int (length (details r)) = success r + failed r \<and>
         success r = int (length (filter d_success (details r))) \<and>
         failed r = int (length (filter (\<lambda>x. \<not> d_success x) (details r))) \<and>
         sorted_wrt date_less (map d_date (details r)) \<and>
         (details r = [] \<or>
          (\<exists>dates. generate_dates sd ed = Inr dates \<and>
                   map d_date (details r) = take (length (details r)) dates))"
proof -
  let ?r0 = "\<lparr>total = 0, success = 0, failed = 0, details = []\<rparr>"
  let ?s0 = "\<lparr>res = ?r0, trace = [], world = w\<rparr>"
  from try_block_cases [of self sd ed base pcb scb ?s0] show ?thesis
  proof (elim disjE exE conjE)
    fix dates s3 x s4
    assume g: "generate_dates sd ed = Inr dates"
      and r3: "res s3 = (res ?s0)\<lparr>total := int (length dates)\<rparr>"
      and fd: "for_dates self base pcb scb (int (length dates)) 0 dates s3 = (x, s4)"
      and r4: "res (try_block self sd ed base pcb scb ?s0) = res s4"
    from for_dates_results [OF fd] r3 obtain new where new:
      "details (res s4) = new" "length new \<le> length dates"
      "map d_date new = take (length new) dates"
      "success (res s4) = int (length (filter d_success new))"
      "failed (res s4) = int (length (filter (\<lambda>r. \<not> d_success r) new))"
      by auto
    have "sorted_wrt date_less (take (length new) dates)"
      using generate_dates_sorted [OF g] by (rule sorted_wrt_take)
    with new r4 g filter_lengths [of d_success new] show ?thesis
      unfolding r_def by auto
  qed (simp_all add: r_def)
qed

text \<open>
  What a pass through the loop body records, read against what it did: when no submission
  returned in the pass, the results are as before and the loop does not go on; when the
  submission returned \<open>ok\<close>, the record of the day, with \<open>ok\<close> in it, is the one
  thing appended.
\<close>

lemma process_date_outcome:
  assumes "process_date self base pcb scb n i d s = (x, s')"
  shows "\<exists>new. trace s' = trace s @ new \<and>
           ((outcomes new = [] \<and> x \<noteq> Next \<and> res s' = res s) \<or>
            (\<exists>ok. outcomes new = [(d, ok)] \<and> x \<noteq> Broken \<and>
               res s' = record_result (res s) d (generate_content base i) (bot_school_id self) ok))"
  using process_date_cases [OF assms]
proof (elim disjE exE conjE)
  fix e
  assume "x = Raised e" "res s' = res s" "trace s' = trace s @ [EStop (Inl e)]"
  then have "trace s' = trace s @ [EStop (Inl e)] \<and> outcomes [EStop (Inl e)] = [] \<and>
             x \<noteq> Next \<and> res s' = res s"
    by simp
  then show ?thesis by blast
next
  assume "x = Broken" "res s' = res s" "trace s' = trace s @ [EStop (Inr False)]"
  then have "trace s' = trace s @ [EStop (Inr False)] \<and> outcomes [EStop (Inr False)] = [] \<and>
             x \<noteq> Next \<and> res s' = res s"
    by simp
  then show ?thesis by blast
next
  fix e
  let ?new = "poll_events scb @ day_progress pcb (i + 1) n (res s)"
  assume "x = Raised e" "res s' = res s" "trace s' = trace s @ ?new"
  then have "trace s' = trace s @ ?new \<and> outcomes ?new = [] \<and> x \<noteq> Next \<and> res s' = res s"
    by simp
  then show ?thesis by blast
next
  fix e
  let ?new = "poll_events scb @ day_progress pcb (i + 1) n (res s) @
              [EFill d (generate_content base i) (Inl e)]"
  assume "x = Raised e" "res s' = res s" "trace s' = trace s @ ?new"
  then have "trace s' = trace s @ ?new \<and> outcomes ?new = [] \<and> x \<noteq> Next \<and> res s' = res s"
    by simp
  then show ?thesis by blast
next
  fix e ok
  let ?new = "poll_events scb @ day_progress pcb (i + 1) n (res s) @
              [EFill d (generate_content base i) (Inr ok)]"
  assume "x = Raised e"
    "res s' = record_result (res s) d (generate_content base i) (bot_school_id self) ok"
    "trace s' = trace s @ ?new"
  then have "trace s' = trace s @ ?new \<and> outcomes ?new = [(d, ok)] \<and> x \<noteq> Broken \<and>
    res s' = record_result (res s) d (generate_content base i) (bot_school_id self) ok"
    by simp
  then show ?thesis by blast
next
  fix ok nav
  let ?new = "poll_events scb @ day_progress pcb (i + 1) n (res s) @
              [EFill d (generate_content base i) (Inr ok)] @ nav"
  assume "x = Next"
    "res s' = record_result (res s) d (generate_content base i) (bot_school_id self) ok"
    "trace s' = trace s @ ?new"
    "if i < n - 1 then sleep (bot_delay self) = Inr () \<and> (\<exists>r. nav = [ENavigate r])
                else nav = []"
  then have "trace s' = trace s @ ?new \<and> outcomes ?new = [(d, ok)] \<and> x \<noteq> Broken \<and>
    res s' = record_result (res s) d (generate_content base i) (bot_school_id self) ok"
    by (auto split: if_splits)
  then show ?thesis by blast
qed

text \<open>
  The records the loop appends are the submissions that returned while it ran, date and
  result, in their order; each carries the school id of the bot.
\<close>

lemma for_dates_outcomes:
  assumes "for_dates self base pcb scb n i ds s = (x, s')"
  shows "\<exists>new tr. details (res s') = details (res s) @ new \<and> trace s' = trace s @ tr \<and>
           map (\<lambda>r. (d_date r, d_success r)) new = outcomes tr \<and>
           (\<forall>r \<in> set new. d_school_id r = bot_school_id self)"
  using assms
proof (induction ds arbitrary: i s)
  case Nil
  then show ?case by simp
next
  case (Cons d ds)
  let ?c = "generate_content base i"
  let ?rec = "\<lambda>ok. \<lparr>d_date = d, d_content = ?c, d_school_id = bot_school_id self, d_success = ok\<rparr>"
  have one: "\<exists>new tr. details (res s1) = details (res s) @ new \<and> trace s1 = trace s @ tr \<and>
           map (\<lambda>r. (d_date r, d_success r)) new = outcomes tr \<and>
           (\<forall>r \<in> set new. d_school_id r = bot_school_id self)"
    if p: "process_date self base pcb scb n i d s = (x1, s1)" for x1 s1
    using process_date_outcome [OF p]
  proof (elim disjE exE conjE)
    fix tr
    assume "trace s1 = trace s @ tr" "outcomes tr = []" "res s1 = res s"
    then have "details (res s1) = details (res s) @ [] \<and> trace s1 = trace s @ tr \<and>
           map (\<lambda>r. (d_date r, d_success r)) [] = outcomes tr \<and>
           (\<forall>r \<in> set ([] :: detail list). d_school_id r = bot_school_id self)"
      by simp
    then show ?thesis by blast
  next
    fix tr ok
    assume "trace s1 = trace s @ tr" "outcomes tr = [(d, ok)]"
      "res s1 = record_result (res s) d ?c (bot_school_id self) ok"
    then have "details (res s1) = details (res s) @ [?rec ok] \<and> trace s1 = trace s @ tr \<and>
           map (\<lambda>r. (d_date r, d_success r)) [?rec ok] = outcomes tr \<and>
           (\<forall>r \<in> set [?rec ok]. d_school_id r = bot_school_id self)"
      by simp
    then show ?thesis by blast
  qed
  from for_dates_Cons_cases [OF Cons.prems] show ?case
  proof (elim disjE exE conjE)
    assume "process_date self base pcb scb n i d s = (x, s')"
    then show ?thesis by (rule one)
  next
    fix s1
    assume p: "process_date self base pcb scb n i d s = (Next, s1)"
      and f: "for_dates self base pcb scb n (i + 1) ds s1 = (x, s')"
    from one [OF p] obtain new1 :: "detail list" and tr1 where 1:
      "details (res s1) = details (res s) @ new1" "trace s1 = trace s @ tr1"
      "map (\<lambda>r. (d_date r, d_success r)) new1 = outcomes tr1"
      "\<forall>r \<in> set new1. d_school_id r = bot_school_id self"
      by blast
    from Cons.IH [OF f] obtain new2 :: "detail list" and tr2 where 2:
      "details (res s') = details (res s1) @ new2" "trace s' = trace s1 @ tr2"
      "map (\<lambda>r. (d_date r, d_success r)) new2 = outcomes tr2"
      "\<forall>r \<in> set new2. d_school_id r = bot_school_id self"
      by blast
    from 1 2 have "details (res s') = details (res s) @ (new1 @ new2) \<and>
           trace s' = trace s @ (tr1 @ tr2) \<and>
           map (\<lambda>r. (d_date r, d_success r)) (new1 @ new2) = outcomes (tr1 @ tr2) \<and>
           (\<forall>r \<in> set (new1 @ new2). d_school_id r = bot_school_id self)"
      by auto
    then show ?thesis by blast
  qed
qed

lemma try_block_outcomes:
  fixes self :: "'w bot" and w :: 'w and sd ed base pcb scb
  defines "s \<equiv> try_block self sd ed base pcb scb
      \<lparr>res = \<lparr>total = 0, success = 0, failed = 0, details = []\<rparr>, trace = [], world = w\<rparr>"
  shows "map (\<lambda>r. (d_date r, d_success r)) (details (res s)) = outcomes (trace s) \<and>
         (\<forall>r \<in> set (details (res s)). d_school_id r = bot_school_id self)"
proof -
  let ?r0 = "\<lparr>total = 0, success = 0, failed = 0, details = []\<rparr>"
  let ?s0 = "\<lparr>res = ?r0, trace = [], world = w\<rparr>"
  from try_block_cases [of self sd ed base pcb scb ?s0] show ?thesis
  proof (elim disjE exE conjE)
    fix dates s3 x s4
    assume r3: "res s3 = (res ?s0)\<lparr>total := int (length dates)\<rparr>"
      and t3: "trace s3 = trace ?s0 @ [ELogin (Inr True), ENavigate (Inr True)]"
      and fd: "for_dates self base pcb scb (int (length dates)) 0 dates s3 = (x, s4)"
      and r4: "res (try_block self sd ed base pcb scb ?s0) = res s4"
      and t4: "trace (try_block self sd ed base pcb scb ?s0) = trace s4 @
              (case x of Raised e \<Rightarrow> []
               | _ \<Rightarrow> day_progress pcb (int (length dates)) (int (length dates)) (res s4))"
    from for_dates_outcomes [OF fd] r3 t3 obtain new :: "detail list" and tr where new:
      "details (res s4) = new" "trace s4 = [ELogin (Inr True), ENavigate (Inr True)] @ tr"
      "map (\<lambda>r. (d_date r, d_success r)) new = outcomes tr"
      "\<forall>r \<in> set new. d_school_id r = bot_school_id self"
      by auto
    have "outcomes (case x of Raised e \<Rightarrow> []
               | _ \<Rightarrow> day_progress pcb (int (length dates)) (int (length dates)) (res s4)) = []"
      by (cases x) simp_all
    with new r4 t4 show ?thesis unfolding s_def by simp
  qed (auto simp: s_def)
qed

text \<open>
  \<^bold>\<open>Claim C10\<close>. A pass through the loop body in which the submission returned
  appends exactly one record, for the date of the pass and with what the submission
  returned, and adds one to exactly one of the two counters, \<open>success\<close> when it returned
  true and \<open>failed\<close> when it returned false; a pass in which no submission returned leaves
  the results as they were and ends the loop. In what \<open>auto_fill_journals\<close> returns,
  however the run went and wherever it stopped, the detail list is the list of the
  submissions that returned, date and result, in the order of the run; every record has
  the school id of the bot; the list has as many records as the two counters add up to,
  \<open>success\<close> counts the records with success and \<open>failed\<close> the others; the dates of the
  records are in ascending order, and they are the first dates of the generated range, each
  at its place.
\<close>

theorem details_match_counters:
  "(process_date self base pcb scb n i d s = (x, s') \<longrightarrow>
      (\<exists>new. trace s' = trace s @ new \<and>
         ((outcomes new = [] \<and> x \<noteq> Next \<and> res s' = res s) \<or>
          (\<exists>ok. outcomes new = [(d, ok)] \<and> x \<noteq> Broken \<and>
             details (res s') =
               details (res s) @ [\<lparr>d_date = d, d_content = generate_content base i,
                               d_school_id = bot_school_id self, d_success = ok\<rparr>] \<and>
             success (res s') = success (res s) + (if ok then 1 else 0) \<and>
             failed (res s') = failed (res s) + (if ok then 0 else 1) \<and>
             total (res s') = total (res s))))) \<and>
   map (\<lambda>r. (d_date r, d_success r)) (details (res (auto_fill_journals self sd ed base pcb scb w))) =
     outcomes (trace (auto_fill_journals self sd ed base pcb scb w)) \<and>
   (\<forall>r \<in> set (details (res (auto_fill_journals self sd ed base pcb scb w))). d_school_id r = bot_school_id self) \<and>
   int (length (details (res (auto_fill_journals self sd ed base pcb scb w)))) =
     success (res (auto_fill_journals self sd ed base pcb scb w)) + failed (res (auto_fill_journals self sd ed base pcb scb w)) \<and>
   success (res (auto_fill_journals self sd ed base pcb scb w)) =
     int (length (filter d_success (details (res (auto_fill_journals self sd ed base pcb scb w))))) \<and>
   failed (res (auto_fill_journals self sd ed base pcb scb w)) =
     int (length (filter (\<lambda>x. \<not> d_success x) (details (res (auto_fill_journals self sd ed base pcb scb w))))) \<and>
   sorted_wrt date_less (map d_date (details (res (auto_fill_journals self sd ed base pcb scb w)))) \<and>
   (details (res (auto_fill_journals self sd ed base pcb scb w)) = [] \<or>
    (\<exists>dates. generate_dates sd ed = Inr dates \<and>
       map d_date (details (res (auto_fill_journals self sd ed base pcb scb w))) =
       take (length (details (res (auto_fill_journals self sd ed base pcb scb w)))) dates))"
proof (intro conjI impI)
  assume p: "process_date self base pcb scb n i d s = (x, s')"
  from process_date_outcome [OF p] show "\<exists>new. trace s' = trace s @ new \<and>
         ((outcomes new = [] \<and> x \<noteq> Next \<and> res s' = res s) \<or>
          (\<exists>ok. outcomes new = [(d, ok)] \<and> x \<noteq> Broken \<and>
             details (res s') =
               details (res s) @ [\<lparr>d_date = d, d_content = generate_content base i,
                               d_school_id = bot_school_id self, d_success = ok\<rparr>] \<and>
             success (res s') = success (res s) + (if ok then 1 else 0) \<and>
             failed (res s') = failed (res s) + (if ok then 0 else 1) \<and>
             total (res s') = total (res s)))"
  proof (elim disjE exE conjE)
    fix new
    assume "trace s' = trace s @ new" "outcomes new = []" "x \<noteq> Next" "res s' = res s"
    then show ?thesis by blast
  next
    fix new ok
    assume t: "trace s' = trace s @ new" "outcomes new = [(d, ok)]" "x \<noteq> Broken"
      and r: "res s' = record_result (res s) d (generate_content base i) (bot_school_id self) ok"
    from r have "details (res s') =
               details (res s) @ [\<lparr>d_date = d, d_content = generate_content base i,
                               d_school_id = bot_school_id self, d_success = ok\<rparr>] \<and>
             success (res s') = success (res s) + (if ok then 1 else 0) \<and>
             failed (res s') = failed (res s) + (if ok then 0 else 1) \<and>
             total (res s') = total (res s)"
      by simp
    with t show ?thesis by blast
  qed
next
  show "map (\<lambda>r. (d_date r, d_success r)) (details (res (auto_fill_journals self sd ed base pcb scb w))) =
     outcomes (trace (auto_fill_journals self sd ed base pcb scb w))"
    unfolding auto_fill_journals_res auto_fill_journals_trace
    using try_block_outcomes [of self sd ed base pcb scb w] by simp
next
  show "\<forall>r \<in> set (details (res (auto_fill_journals self sd ed base pcb scb w))). d_school_id r = bot_school_id self"
    unfolding auto_fill_journals_res
    using try_block_outcomes [of self sd ed base pcb scb w] by blast
next
  show "int (length (details (res (auto_fill_journals self sd ed base pcb scb w)))) =
     success (res (auto_fill_journals self sd ed base pcb scb w)) + failed (res (auto_fill_journals self sd ed base pcb scb w))"
    unfolding auto_fill_journals_res
    using try_block_results [of self sd ed base pcb scb w] by blast
next
  show "success (res (auto_fill_journals self sd ed base pcb scb w)) =
     int (length (filter d_success (details (res (auto_fill_journals self sd ed base pcb scb w)))))"
    unfolding auto_fill_journals_res
    using try_block_results [of self sd ed base pcb scb w] by blast
next
  show "failed (res (auto_fill_journals self sd ed base pcb scb w)) =
     int (length (filter (\<lambda>x. \<not> d_success x) (details (res (auto_fill_journals self sd ed base pcb scb w)))))"
    unfolding auto_fill_journals_res
    using try_block_results [of self sd ed base pcb scb w] by blast
next
  show "sorted_wrt date_less (map d_date (details (res (auto_fill_journals self sd ed base pcb scb w))))"
    unfolding auto_fill_journals_res
    using try_block_results [of self sd ed base pcb scb w] by blast
next
  show "details (res (auto_fill_journals self sd ed base pcb scb w)) = [] \<or>
    (\<exists>dates. generate_dates sd ed = Inr dates \<and>
       map d_date (details (res (auto_fill_journals self sd ed base pcb scb w))) =
       take (length (details (res (auto_fill_journals self sd ed base pcb scb w)))) dates)"
    unfolding auto_fill_journals_res
    using try_block_results [of self sd ed base pcb scb w] by blast
qed

text \<open>
  \<^bold>\<open>Claim C6\<close>. When \<open>login\<close> does not return true (it returns false, or it
  raises), the results are returned as they were set up, all zero and with no detail record,
  and the run consists of the call of \<open>login\<close> and the closing of the browser: neither
  \<open>navigate_to_journal\<close> nor \<open>fill_journal_entry\<close> is called.
\<close>

theorem failed_login_returns_empty:
  assumes "fst (bot_login self w) \<noteq> Inr True"
  shows "res (auto_fill_journals self sd ed base pcb scb w) =
           \<lparr>total = 0, success = 0, failed = 0, details = []\<rparr> \<and>
         trace (auto_fill_journals self sd ed base pcb scb w) =
           [ELogin (fst (bot_login self w)), EQuit] \<and>
         navigations (trace (auto_fill_journals self sd ed base pcb scb w)) = [] \<and>
         fills (trace (auto_fill_journals self sd ed base pcb scb w)) = []"
proof -
  obtain r1 w1 where l: "bot_login self w = (r1, w1)" by (cases "bot_login self w")
  with assms have "r1 \<noteq> Inr True" by simp
  with l have "try_block self sd ed base pcb scb
      \<lparr>res = \<lparr>total = 0, success = 0, failed = 0, details = []\<rparr>, trace = [], world = w\<rparr>
    = \<lparr>res = \<lparr>total = 0, success = 0, failed = 0, details = []\<rparr>, trace = [ELogin r1], world = w1\<rparr>"
    unfolding try_block_def by (auto simp: Let_def split: sum.splits bool.splits)
  with l show ?thesis by (simp add: auto_fill_journals_def Let_def)
qed


subsection \<open>The progress events\<close>

lemma for_dates_no_progress:
  assumes "for_dates self base None scb n i ds s = (x, s')"
  shows "progress_events (trace s') = progress_events (trace s)"
  using assms
proof (induction ds arbitrary: i s)
  case Nil
  then show ?case by simp
next
  case (Cons d ds)
  have one: "progress_events (trace t') = progress_events (trace t)"
    if "process_date self base None scb n j d t = (y, t')" for j t y t'
    using process_date_cases [OF that] by (elim disjE exE conjE) (auto split: if_splits)
  from for_dates_Cons_cases [OF Cons.prems] show ?case
  proof (elim disjE exE conjE)
    assume "process_date self base None scb n i d s = (x, s')"
    then show ?thesis by (rule one)
  next
    fix s1
    assume p: "process_date self base None scb n i d s = (Next, s1)"
      and f: "for_dates self base None scb n (i + 1) ds s1 = (x, s')"
    from Cons.IH [OF f] one [OF p] show ?thesis by simp
  qed
qed

text \<open>
  With a progress sink, the \<open>j\<close>-th report of the loop (counted from \<open>0\<close>, the loop
  starting at index \<open>i\<close>) gives \<open>i + j + 1\<close> as the current day and counters that add up to
  \<open>i + j\<close>.
\<close>

lemma for_dates_progress:
  assumes "for_dates self base (Some f) scb n i ds s = (x, s')"
    and "success (res s) + failed (res s) = i"
  shows "\<exists>evs. progress_events (trace s') = progress_events (trace s) @ evs \<and>
           length evs \<le> length ds \<and>
           (\<forall>j<length evs. \<exists>a b. evs ! j = (i + int j + 1, n, a, b) \<and> a + b = i + int j)"
  using assms
proof (induction ds arbitrary: i s)
  case Nil
  then show ?case by simp
next
  case (Cons d ds)
  let ?ev = "(i + 1, n, success (res s), failed (res s))"
  note sum = Cons.prems(2)
  from for_dates_Cons_cases [OF Cons.prems(1)] show ?case
  proof (elim disjE exE conjE)
    assume p: "process_date self base (Some f) scb n i d s = (x, s')"
    from process_date_cases [OF p]
    have "progress_events (trace s') = progress_events (trace s) @ [] \<or>
          progress_events (trace s') = progress_events (trace s) @ [?ev]"
      by (elim disjE exE conjE) (auto split: if_splits)
    then show ?thesis
    proof
      assume "progress_events (trace s') = progress_events (trace s) @ []"
      then show ?thesis by (intro exI [of _ "[]"]) simp
    next
      assume "progress_events (trace s') = progress_events (trace s) @ [?ev]"
      then show ?thesis using sum by (intro exI [of _ "[?ev]"]) simp
    qed
  next
    fix s1
    assume p: "process_date self base (Some f) scb n i d s = (Next, s1)"
      and fd: "for_dates self base (Some f) scb n (i + 1) ds s1 = (x, s')"
    from process_date_Next [OF p] obtain ok where
      r1: "res s1 = record_result (res s) d (generate_content base i) (bot_school_id self) ok"
      and t1: "progress_events (trace s1) = progress_events (trace s) @ [?ev]"
      by (auto split: if_splits)
    from r1 sum have "success (res s1) + failed (res s1) = i + 1" by simp
    from Cons.IH [OF fd this] obtain evs where evs:
      "progress_events (trace s') = progress_events (trace s1) @ evs"
      "length evs \<le> length ds"
      "\<forall>j<length evs. \<exists>a b. evs ! j = (i + 1 + int j + 1, n, a, b) \<and> a + b = i + 1 + int j"
      by blast
    have "\<forall>j<length (?ev # evs). \<exists>a b. (?ev # evs) ! j = (i + int j + 1, n, a, b) \<and> a + b = i + int j"
    proof (intro allI impI)
      fix j assume j: "j < length (?ev # evs)"
      show "\<exists>a b. (?ev # evs) ! j = (i + int j + 1, n, a, b) \<and> a + b = i + int j"
      proof (cases j)
        case 0
        with sum show ?thesis by simp
      next
        case (Suc j')
        with j evs(3) have "\<exists>a b. evs ! j' = (i + 1 + int j' + 1, n, a, b) \<and> a + b = i + 1 + int j'"
          by simp
        with Suc show ?thesis by (simp add: add.commute add.left_commute)
      qed
    qed
    moreover have "progress_events (trace s') = progress_events (trace s) @ (?ev # evs)"
      using evs(1) t1 by simp
    moreover have "length (?ev # evs) \<le> length (d # ds)" using evs(2) by simp
    ultimately show ?thesis by blast
  qed
qed

text \<open>
  \<^bold>\<open>Claim C1\<close>, as amended. Every progress event of a run reports the length of the
  date range as the total, a current day that does not exceed it, and counters that add up
  to no more than the current day. An event of the loop is sent before the day's submission,
  so its counters add up to the current day minus one; the closing event reports the total
  as the current day, with the counters of the returned results.
\<close>

theorem progress_events_of_run:
  "\<forall>(p, t, a, b) \<in> set (progress_events (trace (auto_fill_journals self sd ed base pcb scb w))).
     t = total (res (auto_fill_journals self sd ed base pcb scb w)) \<and> p \<le> t \<and> a + b \<le> p \<and>
     (a + b = p - 1 \<or>
      (p = t \<and> a = success (res (auto_fill_journals self sd ed base pcb scb w)) \<and>
       b = failed (res (auto_fill_journals self sd ed base pcb scb w))))"
proof -
  let ?r0 = "\<lparr>total = 0, success = 0, failed = 0, details = []\<rparr>"
  let ?s0 = "\<lparr>res = ?r0, trace = [], world = w\<rparr>"
  define s where "s = try_block self sd ed base pcb scb ?s0"
  have run: "res (auto_fill_journals self sd ed base pcb scb w) = res s"
    "progress_events (trace (auto_fill_journals self sd ed base pcb scb w)) = progress_events (trace s)"
    unfolding s_def by (simp_all add: auto_fill_journals_res auto_fill_journals_trace)
  have "\<forall>(p, t, a, b) \<in> set (progress_events (trace s)).
     t = total (res s) \<and> p \<le> t \<and> a + b \<le> p \<and>
     (a + b = p - 1 \<or> (p = t \<and> a = success (res s) \<and> b = failed (res s)))"
    using try_block_cases [of self sd ed base pcb scb ?s0, folded s_def]
  proof (elim disjE exE conjE)
    fix dates :: "pydate list" and s3 x s4
    let ?n = "int (length dates)"
    assume r3: "res s3 = (res ?s0)\<lparr>total := ?n\<rparr>"
      and t3: "trace s3 = trace ?s0 @ [ELogin (Inr True), ENavigate (Inr True)]"
      and fd: "for_dates self base pcb scb ?n 0 dates s3 = (x, s4)"
      and r4: "res s = res s4"
      and t4: "trace s = trace s4 @ (case x of Raised e \<Rightarrow> [] | _ \<Rightarrow> day_progress pcb ?n ?n (res s4))"
    from for_dates_results [OF fd] obtain new :: "detail list" where new0:
      "length new \<le> length dates"
      "success (res s4) = success (res s3) + int (length (filter d_success new))"
      "failed (res s4) = failed (res s3) + int (length (filter (\<lambda>r. \<not> d_success r) new))"
      "total (res s4) = total (res s3)"
      by blast
    with r3 have new:
      "length new \<le> length dates"
      "success (res s4) = int (length (filter d_success new))"
      "failed (res s4) = int (length (filter (\<lambda>r. \<not> d_success r) new))"
      "total (res s4) = ?n"
      by simp_all
    have "length (filter d_success new) + length (filter (\<lambda>r. \<not> d_success r) new) = length new"
      by (induction new) simp_all
    with new have sum4: "success (res s4) + failed (res s4) \<le> ?n" by linarith
    show ?thesis
    proof (cases pcb)
      case None
      with fd have "progress_events (trace s4) = progress_events (trace s3)"
        by (simp add: for_dates_no_progress)
      with t3 t4 None have "progress_events (trace s) = []"
        by (cases x) (simp_all add: day_progress_def)
      then show ?thesis by simp
    next
      case (Some f)
      from r3 have "success (res s3) + failed (res s3) = 0" by simp
      from for_dates_progress [OF fd [unfolded Some] this]
      have "\<exists>evs. progress_events (trace s4) = progress_events (trace s3) @ evs \<and>
              length evs \<le> length dates \<and>
              (\<forall>j<length evs. \<exists>a b. evs ! j = (int j + 1, ?n, a, b) \<and> a + b = int j)"
        by simp
      then obtain evs where evs0:
        "progress_events (trace s4) = progress_events (trace s3) @ evs"
        and evs2: "length evs \<le> length dates"
        and evs3: "\<forall>j<length evs. \<exists>a b. evs ! j = (int j + 1, ?n, a, b) \<and> a + b = int j"
        by blast
      from evs0 t3 have evs1: "progress_events (trace s4) = evs" by simp
      note evs = evs1 evs2 evs3
      have body: "t = ?n \<and> p \<le> t \<and> a + b \<le> p \<and> a + b = p - 1" if "(p, t, a, b) \<in> set evs" for p t a b
      proof -
        from that obtain j where j: "j < length evs" "evs ! j = (p, t, a, b)"
          by (auto simp: in_set_conv_nth)
        from evs(3) j(1) obtain a' b' where "evs ! j = (int j + 1, ?n, a', b')" "a' + b' = int j"
          by blast
        with j(2) have "p = int j + 1" "t = ?n" "a + b = int j" by simp_all
        with j(1) evs(2) show ?thesis by simp
      qed
      have fin: "progress_events (trace s) = evs \<or>
                 progress_events (trace s) = evs @ [(?n, ?n, success (res s4), failed (res s4))]"
        using t4 evs(1) Some by (cases x) (simp_all add: day_progress_def)
      show ?thesis
      proof (clarify)
        fix p t a b
        assume "(p, t, a, b) \<in> set (progress_events (trace s))"
        with fin have "(p, t, a, b) \<in> set evs \<or> (p, t, a, b) = (?n, ?n, success (res s4), failed (res s4))"
          by auto
        then show "t = total (res s) \<and> p \<le> t \<and> a + b \<le> p \<and>
                (a + b = p - 1 \<or> (p = t \<and> a = success (res s) \<and> b = failed (res s)))"
        proof
          assume "(p, t, a, b) \<in> set evs"
          from body [OF this] r4 new(4) show ?thesis by simp
        next
          assume "(p, t, a, b) = (?n, ?n, success (res s4), failed (res s4))"
          with sum4 r4 new(4) show ?thesis by simp
        qed
      qed
    qed
  qed simp_all
  with run show ?thesis by simp
qed


subsection \<open>Cancellation\<close>

lemma for_dates_Broken_stop:
  assumes "for_dates self base pcb scb n i ds s = (Broken, s')"
  shows "scb \<noteq> None"
  using assms
proof (induction ds arbitrary: i s)
  case Nil
  then show ?case by simp
next
  case (Cons d ds)
  from for_dates_Cons_cases [OF Cons.prems] show ?case
  proof (elim disjE exE conjE)
    assume "process_date self base pcb scb n i d s = (Broken, s')"
    from process_date_cases [OF this] show ?thesis by auto
  next
    fix s1
    assume "for_dates self base pcb scb n (i + 1) ds s1 = (Broken, s')"
    then show ?thesis by (rule Cons.IH)
  qed
qed

text \<open>
  When the loop is left by \<open>break\<close>, the cancellation predicate has answered "keep
  running" for some first dates of the list, which were submitted and recorded, and then
  "stop". When the loop ends otherwise, the predicate never answered "stop".
\<close>

lemma for_dates_polls:
  assumes "for_dates self base pcb scb n i ds s = (x, s')"
  shows "if x = Broken
         then (\<exists>m<length ds.
                 polls (trace s') = polls (trace s) @ replicate m (Inr True) @ [Inr False] \<and>
                 map fst (fills (trace s')) = map fst (fills (trace s)) @ take m ds \<and>
                 length (details (res s')) = length (details (res s)) + m)
         else (\<exists>q. polls (trace s') = polls (trace s) @ q \<and> Inr False \<notin> set q)"
  using assms
proof (induction ds arbitrary: i s)
  case Nil
  then show ?case by auto
next
  case (Cons d ds)
  from for_dates_Cons_cases [OF Cons.prems] show ?case
  proof (elim disjE exE conjE)
    assume x: "x \<noteq> Next" and p: "process_date self base pcb scb n i d s = (x, s')"
    show ?thesis
    proof (cases "x = Broken")
      case True
      with process_date_cases [OF p] have
        "0 < length (d # ds) \<and>
         polls (trace s') = polls (trace s) @ replicate 0 (Inr True) @ [Inr False] \<and>
         map fst (fills (trace s')) = map fst (fills (trace s)) @ take 0 (d # ds) \<and>
         length (details (res s')) = length (details (res s)) + 0"
        by auto
      then have "\<exists>m<length (d # ds).
                 polls (trace s') = polls (trace s) @ replicate m (Inr True) @ [Inr False] \<and>
                 map fst (fills (trace s')) = map fst (fills (trace s)) @ take m (d # ds) \<and>
                 length (details (res s')) = length (details (res s)) + m"
        by (rule exI [of _ 0])
      with True show ?thesis by simp
    next
      case False
      with process_date_cases [OF p]
      have "\<exists>q. polls (trace s') = polls (trace s) @ q \<and> Inr False \<notin> set q"
        by (elim disjE exE conjE) (auto split: option.splits if_splits)
      with False show ?thesis by simp
    qed
  next
    fix s1
    assume p: "process_date self base pcb scb n i d s = (Next, s1)"
      and f: "for_dates self base pcb scb n (i + 1) ds s1 = (x, s')"
    from process_date_Next [OF p] have s1:
      "polls (trace s1) = polls (trace s) @ (case scb of None \<Rightarrow> [] | Some f \<Rightarrow> [Inr True])"
      "map fst (fills (trace s1)) = map fst (fills (trace s)) @ [d]"
      "length (details (res s1)) = length (details (res s)) + 1"
      by (auto split: if_splits)
    show ?thesis
    proof (cases "x = Broken")
      case True
      with f have "scb \<noteq> None" by (simp add: for_dates_Broken_stop)
      with s1(1) have pl: "polls (trace s1) = polls (trace s) @ [Inr True]" by auto
      from Cons.IH [OF f] True obtain m where m: "m < length ds"
        "polls (trace s') = polls (trace s1) @ replicate m (Inr True) @ [Inr False]"
        "map fst (fills (trace s')) = map fst (fills (trace s1)) @ take m ds"
        "length (details (res s')) = length (details (res s1)) + m"
        by auto
      with pl s1 have "Suc m < length (d # ds) \<and>
        polls (trace s') = polls (trace s) @ replicate (Suc m) (Inr True) @ [Inr False] \<and>
        map fst (fills (trace s')) = map fst (fills (trace s)) @ take (Suc m) (d # ds) \<and>
        length (details (res s')) = length (details (res s)) + Suc m"
        by simp
      then have "\<exists>m<length (d # ds).
                 polls (trace s') = polls (trace s) @ replicate m (Inr True) @ [Inr False] \<and>
                 map fst (fills (trace s')) = map fst (fills (trace s)) @ take m (d # ds) \<and>
                 length (details (res s')) = length (details (res s)) + m"
        by (rule exI [of _ "Suc m"])
      with True show ?thesis by simp
    next
      case False
      with Cons.IH [OF f] obtain q where
        "polls (trace s') = polls (trace s1) @ q" "Inr False \<notin> set q"
        by auto
      with s1(1) have "polls (trace s') =
          polls (trace s) @ ((case scb of None \<Rightarrow> [] | Some f \<Rightarrow> [Inr True]) @ q) \<and>
          Inr False \<notin> set ((case scb of None \<Rightarrow> [] | Some f \<Rightarrow> [Inr True]) @ q)"
        by (auto split: option.splits)
      then have "\<exists>q. polls (trace s') = polls (trace s) @ q \<and> Inr False \<notin> set q"
        by (rule exI)
      with False show ?thesis by simp
    qed
  qed
qed

lemma replicate_snoc_eq:
  assumes "replicate m a @ [b] = replicate k a @ [b]"
  shows "m = k"
proof -
  from assms have "length (replicate m a @ [b]) = length (replicate k a @ [b])" by simp
  then show ?thesis by simp
qed

text \<open>
  \<^bold>\<open>Claim C2\<close>. Take any run in which the cancellation predicate was polled \<open>k + 1\<close>
  times and answered "keep running" \<open>k\<close> times and then "stop". The range was generated
  and has more than \<open>k\<close> dates; the returned total is its length; there are \<open>k\<close> records,
  for the first \<open>k\<close> dates; and these \<open>k\<close> dates are all that was ever submitted.
\<close>

theorem cancellation_stops_run:
  assumes "polls (trace (auto_fill_journals self sd ed base pcb scb w)) =
             replicate k (Inr True) @ [Inr False]"
  shows "\<exists>dates. generate_dates sd ed = Inr dates \<and> k < length dates \<and>
           total (res (auto_fill_journals self sd ed base pcb scb w)) = int (length dates) \<and>
           length (details (res (auto_fill_journals self sd ed base pcb scb w))) = k \<and>
           map d_date (details (res (auto_fill_journals self sd ed base pcb scb w))) = take k dates \<and>
           map fst (fills (trace (auto_fill_journals self sd ed base pcb scb w))) = take k dates"
proof -
  let ?r0 = "\<lparr>total = 0, success = 0, failed = 0, details = []\<rparr>"
  let ?s0 = "\<lparr>res = ?r0, trace = [], world = w\<rparr>"
  define s where "s = try_block self sd ed base pcb scb ?s0"
  have run: "res (auto_fill_journals self sd ed base pcb scb w) = res s"
    "polls (trace (auto_fill_journals self sd ed base pcb scb w)) = polls (trace s)"
    "fills (trace (auto_fill_journals self sd ed base pcb scb w)) = fills (trace s)"
    unfolding s_def by (simp_all add: auto_fill_journals_res auto_fill_journals_trace)
  from assms run(2) have ps: "polls (trace s) = replicate k (Inr True) @ [Inr False]" by simp
  have "\<exists>dates. generate_dates sd ed = Inr dates \<and> k < length dates \<and>
           total (res s) = int (length dates) \<and> length (details (res s)) = k \<and>
           map d_date (details (res s)) = take k dates \<and>
           map fst (fills (trace s)) = take k dates"
    using try_block_cases [of self sd ed base pcb scb ?s0, folded s_def]
  proof (elim disjE exE conjE)
    fix dates :: "pydate list" and s3 x s4
    let ?n = "int (length dates)"
    assume g: "generate_dates sd ed = Inr dates"
      and r3: "res s3 = (res ?s0)\<lparr>total := ?n\<rparr>"
      and t3: "trace s3 = trace ?s0 @ [ELogin (Inr True), ENavigate (Inr True)]"
      and fd: "for_dates self base pcb scb ?n 0 dates s3 = (x, s4)"
      and r4: "res s = res s4"
      and t4: "trace s = trace s4 @ (case x of Raised e \<Rightarrow> [] | _ \<Rightarrow> day_progress pcb ?n ?n (res s4))"
    from t4 have p4: "polls (trace s) = polls (trace s4)" "fills (trace s) = fills (trace s4)"
      by (cases x; simp)+
    from t3 have p3: "polls (trace s3) = []" "fills (trace s3) = []" by simp_all
    from r3 have d3: "details (res s3) = []" by simp
    have brk: "x = Broken"
    proof (rule ccontr)
      assume "x \<noteq> Broken"
      with for_dates_polls [OF fd] p3 obtain q where "polls (trace s4) = q" "Inr False \<notin> set q"
        by auto
      with ps p4 show False by auto
    qed
    with for_dates_polls [OF fd] p3 d3 obtain m where m: "m < length dates"
      "polls (trace s4) = replicate m (Inr True) @ [Inr False]"
      "map fst (fills (trace s4)) = take m dates"
      "length (details (res s4)) = m"
      by auto
    from m(2) ps p4 have mk: "m = k" by (simp add: replicate_snoc_eq)
    from for_dates_results [OF fd] d3 obtain new :: "detail list" where
      "details (res s4) = new" "map d_date new = take (length new) dates"
      "total (res s4) = total (res s3)"
      by auto
    with m mk r3 have "total (res s4) = ?n" "map d_date (details (res s4)) = take k dates"
      by auto
    with g m mk r4 p4 show ?thesis by auto
  qed (use ps in simp_all)
  with run show ?thesis by simp
qed


subsection \<open>Going back to the entry form between two days\<close>

text \<open>
  When the callbacks and the submission do not fault, nothing asks to stop and the wait
  between two days goes through, a pass through the loop body ends normally, whatever
  \<open>navigate_to_journal\<close> does.
\<close>

lemma process_date_completes:
  assumes delay: "sleep (bot_delay self) = Inr ()"
    and fill: "\<forall>d c w'. \<exists>ok. fst (bot_fill_journal_entry self d c w') = Inr ok"
    and stop: "case scb of None \<Rightarrow> True | Some f \<Rightarrow> \<forall>w'. fst (f w') = Inr True"
    and prog: "case pcb of None \<Rightarrow> True | Some f \<Rightarrow> \<forall>c t a b w'. fst (f c t a b w') = Inr ()"
  shows "\<exists>s'. process_date self base pcb scb n i d s = (Next, s')"
proof -
  let ?c = "generate_content base i"
  obtain r1 s1 where cs: "check_stop scb s = (r1, s1)" by (cases "check_stop scb s")
  have r1: "r1 = Inr False"
  proof (cases scb)
    case None
    with cs show ?thesis by (simp add: check_stop_def)
  next
    case (Some f)
    with stop have "fst (f (world s)) = Inr True" by simp
    with Some cs show ?thesis
      by (cases "f (world s)") (auto simp: check_stop_def)
  qed
  obtain r2 s2 where ep: "emit_progress pcb (i + 1) n s1 = (r2, s2)"
    by (cases "emit_progress pcb (i + 1) n s1")
  have r2: "r2 = Inr ()"
  proof (cases pcb)
    case None
    with ep show ?thesis by (simp add: emit_progress_def)
  next
    case (Some f)
    with prog have "fst (f (i + 1) n (success (res s1)) (failed (res s1)) (world s1)) = Inr ()"
      by simp
    with Some ep show ?thesis
      by (cases "f (i + 1) n (success (res s1)) (failed (res s1)) (world s1)")
        (auto simp: emit_progress_def)
  qed
  from fill obtain ok where "fst (bot_fill_journal_entry self d ?c (world s2)) = Inr ok"
    by blast
  then obtain w3 where fl: "bot_fill_journal_entry self d ?c (world s2) = (Inr ok, w3)"
    by (cases "bot_fill_journal_entry self d ?c (world s2)") auto
  let ?s3 = "s2\<lparr>res := record_result (res s2) d ?c (bot_school_id self) ok,
                trace := trace s2 @ [EFill d ?c (Inr ok)], world := w3\<rparr>"
  obtain r4 s4 where rn: "renavigate self n i ?s3 = (r4, s4)"
    by (cases "renavigate self n i ?s3")
  from renavigate_effect [OF rn] delay have "r4 = None" by (auto split: if_splits)
  with cs r1 ep r2 fl rn have "process_date self base pcb scb n i d s = (Next, s4)"
    by (simp add: process_date_def Let_def)
  then show ?thesis by blast
qed

text \<open>
  Under the same conditions the loop submits and records every date of its list, each
  record with the outcome of its submission, and goes back to the entry form after every
  date but the last one of the range.
\<close>

lemma for_dates_completes:
  assumes delay: "sleep (bot_delay self) = Inr ()"
    and fill: "\<forall>d c w'. \<exists>ok. fst (bot_fill_journal_entry self d c w') = Inr ok"
    and stop: "case scb of None \<Rightarrow> True | Some f \<Rightarrow> \<forall>w'. fst (f w') = Inr True"
    and prog: "case pcb of None \<Rightarrow> True | Some f \<Rightarrow> \<forall>c t a b w'. fst (f c t a b w') = Inr ()"
    and range: "i + int (length ds) = n"
  shows "\<exists>s' new. for_dates self base pcb scb n i ds s = (Next, s') \<and>
           details (res s') = details (res s) @ new \<and> map d_date new = ds \<and>
           fills (trace s') = fills (trace s) @ map (\<lambda>r. (d_date r, Inr (d_success r))) new \<and>
           length (navigations (trace s')) = length (navigations (trace s)) + (length ds - 1)"
  using range
proof (induction ds arbitrary: i s)
  case Nil
  then show ?case by simp
next
  case (Cons d ds)
  let ?c = "generate_content base i"
  from process_date_completes [OF delay fill stop prog] obtain s1 where
    p: "process_date self base pcb scb n i d s = (Next, s1)"
    by blast
  from process_date_Next [OF p] obtain ok nav where
    r1: "res s1 = record_result (res s) d ?c (bot_school_id self) ok"
    and t1: "trace s1 = trace s @ poll_events scb @ day_progress pcb (i + 1) n (res s) @
                     [EFill d ?c (Inr ok)] @ nav"
    and nav: "if i < n - 1 then sleep (bot_delay self) = Inr () \<and> (\<exists>r. nav = [ENavigate r])
              else nav = []"
    by blast
  let ?rec = "\<lparr>d_date = d, d_content = ?c, d_school_id = bot_school_id self, d_success = ok\<rparr>"
  from Cons.prems have rng: "i + 1 + int (length ds) = n" by simp
  from Cons.IH [OF rng, of s1] obtain s' new where ih:
    "for_dates self base pcb scb n (i + 1) ds s1 = (Next, s')"
    "details (res s') = details (res s1) @ new" "map d_date new = ds"
    "fills (trace s') = fills (trace s1) @ map (\<lambda>r. (d_date r, Inr (d_success r))) new"
    "length (navigations (trace s')) = length (navigations (trace s1)) + (length ds - 1)"
    by blast
  have navs: "navigations nav = (if ds = [] then [] else navigations nav) \<and>
              length (navigations nav) = (if ds = [] then 0 else 1)"
  proof (cases "ds = []")
    case True
    with rng have "\<not> i < n - 1" by simp
    with nav True show ?thesis by simp
  next
    case False
    then have "0 < length ds" by simp
    with rng have "i < n - 1" by linarith
    with nav False show ?thesis by auto
  qed
  have f1: "fills nav = []" using nav by (auto split: if_splits)
  have c1: "for_dates self base pcb scb n i (d # ds) s = (Next, s')"
    using p ih(1) by simp
  have c2: "details (res s') = details (res s) @ (?rec # new)"
    using ih(2) r1 by simp
  have c3: "map d_date (?rec # new) = d # ds" using ih(3) by simp
  have c4: "fills (trace s') =
      fills (trace s) @ map (\<lambda>r. (d_date r, Inr (d_success r))) (?rec # new)"
    using ih(4) t1 f1 by simp
  have c5: "length (navigations (trace s')) =
      length (navigations (trace s)) + (length (d # ds) - 1)"
    using ih(5) t1 navs by (cases "ds = []") simp_all
  show ?case
    by (intro exI [of _ s'] exI [of _ "?rec # new"] conjI) (fact c1 c2 c3 c4 c5)+
qed

text \<open>
  \<^bold>\<open>Claim C7\<close>. Let the login and the first navigation succeed and the range be
  generated; let the delay be one that \<open>time.sleep\<close> takes (from 0 to 9223372036
  seconds), the submission and the callbacks not fault, and nothing ask to stop. Nothing is assumed about what \<open>navigate_to_journal\<close> does when it is
  called again between two days: it may return false or raise each time. Even so every date
  of the range is submitted and recorded, in order, each record with the outcome of its own
  submission, and the form is navigated to once at the start and once more after every day
  but the last.
\<close>

theorem renavigation_failure_is_not_fatal:
  assumes login: "fst (bot_login self w) = Inr True"
    and nav: "fst (bot_navigate_to_journal self (snd (bot_login self w))) = Inr True"
    and dates: "generate_dates sd ed = Inr dates" "dates \<noteq> []"
    and delay: "0 \<le> bot_delay self" "bot_delay self \<le> 9223372036"
    and fill: "\<forall>d c w'. \<exists>ok. fst (bot_fill_journal_entry self d c w') = Inr ok"
    and stop: "case scb of None \<Rightarrow> True | Some f \<Rightarrow> \<forall>w'. fst (f w') = Inr True"
    and prog: "case pcb of None \<Rightarrow> True | Some f \<Rightarrow> \<forall>c t a b w'. fst (f c t a b w') = Inr ()"
  shows "map d_date (details (res (auto_fill_journals self sd ed base pcb scb w))) = dates \<and>
         fills (trace (auto_fill_journals self sd ed base pcb scb w)) =
           map (\<lambda>r. (d_date r, Inr (d_success r)))
             (details (res (auto_fill_journals self sd ed base pcb scb w))) \<and>
         length (navigations (trace (auto_fill_journals self sd ed base pcb scb w))) = length dates"
proof -
  let ?r0 = "\<lparr>total = 0, success = 0, failed = 0, details = []\<rparr>"
  let ?s0 = "\<lparr>res = ?r0, trace = [], world = w\<rparr>"
  let ?n = "int (length dates)"
  define s where "s = try_block self sd ed base pcb scb ?s0"
  have run: "res (auto_fill_journals self sd ed base pcb scb w) = res s"
    "fills (trace (auto_fill_journals self sd ed base pcb scb w)) = fills (trace s)"
    "navigations (trace (auto_fill_journals self sd ed base pcb scb w)) = navigations (trace s)"
    unfolding s_def by (simp_all add: auto_fill_journals_res auto_fill_journals_trace)
  obtain w1 where l: "bot_login self w = (Inr True, w1)"
    using login by (cases "bot_login self w") auto
  with nav obtain w2 where nv: "bot_navigate_to_journal self w1 = (Inr True, w2)"
    by (cases "bot_navigate_to_journal self w1") auto
  let ?s3 = "\<lparr>res = ?r0\<lparr>total := ?n\<rparr>, trace = [ELogin (Inr True), ENavigate (Inr True)], world = w2\<rparr>"
  have rng: "0 + ?n = ?n" by simp
  from delay have wait: "sleep (bot_delay self) = Inr ()" by (simp add: sleep_def)
  from for_dates_completes [OF wait fill stop prog rng, of base ?s3] obtain s4 new where
    fd: "for_dates self base pcb scb ?n 0 dates ?s3 = (Next, s4)"
    and d4: "details (res s4) = new" "map d_date new = dates"
    and f4: "fills (trace s4) = map (\<lambda>r. (d_date r, Inr (d_success r))) new"
    and n4: "length (navigations (trace s4)) = 1 + (length dates - 1)"
    by auto
  have "s = snd (emit_progress pcb ?n ?n s4)"
    using l nv dates fd unfolding s_def try_block_def by (simp add: Let_def)
  then have "res s = res s4" "trace s = trace s4 @ day_progress pcb ?n ?n (res s4)"
    by (simp_all add: emit_progress_trace)
  with d4 f4 n4 dates(2) have "map d_date (details (res s)) = dates \<and>
         fills (trace s) = map (\<lambda>r. (d_date r, Inr (d_success r))) (details (res s)) \<and>
         length (navigations (trace s)) = length dates"
    by (cases dates) simp_all
  with run show ?thesis by simp
qed


subsection \<open>Runs on the scripted world\<close>

lemmas date_defs = generate_dates_def strptime_def valid_date_def MINYEAR_def MAXYEAR_def
  days_in_month_def dates_loop.simps date_le_def add_one_day_def jan_def

lemmas run_defs = auto_fill_journals_def try_block_def process_date_def check_stop_def
  emit_progress_def record_result_def renavigate_def sleep_def generate_content_def
  example_bot_def scripted_bot_def stop_after_def never_stop_def silent_progress_def
  first_nav_only_def counters0_def Let_def

lemma jan_1_to_1: "generate_dates (jan 1) (jan 1) = Inr [jan 1]"
  by (simp add: date_defs)

lemma jan_1_to_3: "generate_dates (jan 1) (jan 3) = Inr [jan 1, jan 2, jan 3]"
  by (simp add: date_defs)

lemma jan_1_to_7:
  "generate_dates (jan 1) (jan 7) = Inr [jan 1, jan 2, jan 3, jan 4, jan 5, jan 6, jan 7]"
  by (simp add: date_defs)

theorem details_match_counters_witness:
  "process_date example_bot (ascii ''work'') None None 3 0 (jan 1)
     \<lparr>res = \<lparr>total = 3, success = 0, failed = 0, details = []\<rparr>, trace = [], world = counters0\<rparr> =
     (Next,
      \<lparr>res = \<lparr>total = 3, success = 1, failed = 0,
               details = [\<lparr>d_date = jan 1, d_content = ascii ''work'',
                           d_school_id = ascii ''A1'', d_success = True\<rparr>]\<rparr>,
        trace = [EFill (jan 1) (ascii ''work'') (Inr True), ENavigate (Inr True)],
        world = \<lparr>nav_calls = 1, fill_calls = 1, poll_calls = 0\<rparr>\<rparr>) \<and>
   outcomes [EFill (jan 1) (ascii ''work'') (Inr True), ENavigate (Inr True)] = [(jan 1, True)] \<and>
   outcomes (trace (auto_fill_journals example_bot (jan 1) (jan 3) (ascii ''work'')
                   (Some silent_progress) None counters0)) = [(jan 1, True), (jan 2, False), (jan 3, True)] \<and>
   map (\<lambda>r. (d_date r, d_success r)) (details (res (auto_fill_journals example_bot (jan 1) (jan 3) (ascii ''work'')
                   (Some silent_progress) None counters0))) =
     [(jan 1, True), (jan 2, False), (jan 3, True)] \<and>
   success (res (auto_fill_journals example_bot (jan 1) (jan 3) (ascii ''work'')
                   (Some silent_progress) None counters0)) = 2 \<and>
   failed (res (auto_fill_journals example_bot (jan 1) (jan 3) (ascii ''work'')
                   (Some silent_progress) None counters0)) = 1"
proof -
  let ?s0 = "\<lparr>res = \<lparr>total = 3, success = 0, failed = 0, details = []\<rparr>, trace = [], world = counters0\<rparr>"
  let ?s1 = "\<lparr>res = \<lparr>total = 3, success = 1, failed = 0,
               details = [\<lparr>d_date = jan 1, d_content = ascii ''work'',
                           d_school_id = ascii ''A1'', d_success = True\<rparr>]\<rparr>,
        trace = [EFill (jan 1) (ascii ''work'') (Inr True), ENavigate (Inr True)],
        world = \<lparr>nav_calls = 1, fill_calls = 1, poll_calls = 0\<rparr>\<rparr>"
  let ?run = "auto_fill_journals example_bot (jan 1) (jan 3) (ascii ''work'')
                   (Some silent_progress) None counters0"
  have h: "process_date example_bot (ascii ''work'') None None 3 0 (jan 1) ?s0 = (Next, ?s1)"
    by (simp add: run_defs strip_def ascii_def isspace_def)
  have o: "outcomes (trace ?run) = [(jan 1, True), (jan 2, False), (jan 3, True)]"
    by (simp add: run_defs jan_1_to_3)
  note pass = details_match_counters [of example_bot "ascii ''work''" None None 3 0 "jan 1" ?s0
      Next ?s1, THEN conjunct1]
  note all = details_match_counters [of example_bot "ascii ''work''" "Some silent_progress" None
      _ _ _ _ _ _ "jan 1" "jan 3" counters0, THEN conjunct2]
  from pass h obtain new where
    "trace ?s1 = trace ?s0 @ new"
    "(outcomes new = [] \<and> Next \<noteq> Next \<and> res ?s1 = res ?s0) \<or>
     (\<exists>ok. outcomes new = [(jan 1, ok)] \<and> details (res ?s1) = details (res ?s0) @
        [\<lparr>d_date = jan 1, d_content = generate_content (ascii ''work'') 0,
          d_school_id = bot_school_id example_bot, d_success = ok\<rparr>])"
    by blast
  then have one: "outcomes [EFill (jan 1) (ascii ''work'') (Inr True), ENavigate (Inr True)] =
      [(jan 1, True)]"
    by auto
  from all o have d: "map (\<lambda>r. (d_date r, d_success r)) (details (res ?run)) =
      [(jan 1, True), (jan 2, False), (jan 3, True)]"
    by simp
  from all have c: "success (res ?run) = int (length (filter d_success (details (res ?run))))"
    "failed (res ?run) = int (length (filter (\<lambda>x. \<not> d_success x) (details (res ?run))))"
    by blast+
  have f: "length (filter d_success ds) = length (filter snd (map (\<lambda>r. (d_date r, d_success r)) ds))"
    "length (filter (\<lambda>x. \<not> d_success x) ds) =
       length (filter (\<lambda>p. \<not> snd p) (map (\<lambda>r. (d_date r, d_success r)) ds))"
    for ds :: "detail list"
    by (induction ds) simp_all
  from c d have "success (res ?run) = 2" "failed (res ?run) = 1"
    unfolding f by simp_all
  with h one o d show ?thesis by (intro conjI)
qed

theorem failed_login_returns_empty_witness:
  "fst (bot_login (scripted_bot (Inr False) first_nav_only (\<lambda>k. Inr True) 1) counters0) \<noteq> Inr True \<and>
   res (auto_fill_journals (scripted_bot (Inr False) first_nav_only (\<lambda>k. Inr True) 1)
          (jan 1) (jan 3) (ascii ''work'') (Some silent_progress) (Some never_stop) counters0) =
     \<lparr>total = 0, success = 0, failed = 0, details = []\<rparr> \<and>
   navigations (trace (auto_fill_journals (scripted_bot (Inr False) first_nav_only (\<lambda>k. Inr True) 1)
          (jan 1) (jan 3) (ascii ''work'') (Some silent_progress) (Some never_stop) counters0)) = [] \<and>
   fills (trace (auto_fill_journals (scripted_bot (Inr False) first_nav_only (\<lambda>k. Inr True) 1)
          (jan 1) (jan 3) (ascii ''work'') (Some silent_progress) (Some never_stop) counters0)) = []"
proof -
  have h: "fst (bot_login (scripted_bot (Inr False) first_nav_only (\<lambda>k. Inr True) 1) counters0)
           \<noteq> Inr True"
    by (simp add: scripted_bot_def)
  from failed_login_returns_empty [OF h] h show ?thesis by blast
qed

theorem progress_events_of_run_witness:
  "(2, 3, 1, 0) \<in> set (progress_events (trace (auto_fill_journals example_bot (jan 1) (jan 3)
        (ascii ''work'') (Some silent_progress) None counters0))) \<and>
   total (res (auto_fill_journals example_bot (jan 1) (jan 3)
        (ascii ''work'') (Some silent_progress) None counters0)) = 3"
proof -
  let ?run = "auto_fill_journals example_bot (jan 1) (jan 3)
        (ascii ''work'') (Some silent_progress) None counters0"
  have ev: "(2, 3, 1, 0) \<in> set (progress_events (trace ?run))"
    by (simp add: run_defs jan_1_to_3)
  from progress_events_of_run [of example_bot "jan 1" "jan 3" "ascii ''work''"
      "Some silent_progress" None counters0, THEN bspec, OF ev]
  have "3 = total (res ?run)" by simp
  with ev show ?thesis by simp
qed

theorem progress_before_submission_counterexample:
  "(1, 1, 0, 0) \<in> set (progress_events (trace (auto_fill_journals example_bot (jan 1) (jan 1)
        (ascii ''work'') (Some silent_progress) None counters0))) \<and>
   \<not> (\<forall>(p, t, a, b) \<in> set (progress_events (trace (auto_fill_journals example_bot (jan 1) (jan 1)
        (ascii ''work'') (Some silent_progress) None counters0))). a + b = p \<and> p \<le> t)"
  by (simp add: run_defs jan_1_to_1)

theorem cancellation_stops_run_witness:
  "polls (trace (auto_fill_journals example_bot (jan 1) (jan 7) (ascii ''work'')
            (Some silent_progress) (Some (stop_after 3)) counters0)) =
     replicate 3 (Inr True) @ [Inr False] \<and>
   total (res (auto_fill_journals example_bot (jan 1) (jan 7) (ascii ''work'')
            (Some silent_progress) (Some (stop_after 3)) counters0)) = 7 \<and>
   length (details (res (auto_fill_journals example_bot (jan 1) (jan 7) (ascii ''work'')
            (Some silent_progress) (Some (stop_after 3)) counters0))) = 3 \<and>
   map fst (fills (trace (auto_fill_journals example_bot (jan 1) (jan 7) (ascii ''work'')
            (Some silent_progress) (Some (stop_after 3)) counters0))) = [jan 1, jan 2, jan 3]"
proof -
  let ?run = "auto_fill_journals example_bot (jan 1) (jan 7) (ascii ''work'')
            (Some silent_progress) (Some (stop_after 3)) counters0"
  have h: "polls (trace ?run) = replicate 3 (Inr True) @ [Inr False]"
    by (simp add: run_defs jan_1_to_7 numeral_3_eq_3)
  from cancellation_stops_run [OF h] obtain dates where
    "generate_dates (jan 1) (jan 7) = Inr dates"
    "total (res ?run) = int (length dates)" "length (details (res ?run)) = 3"
    "map fst (fills (trace ?run)) = take 3 dates"
    by blast
  with jan_1_to_7 have "total (res ?run) = 7" "length (details (res ?run)) = 3"
    "map fst (fills (trace ?run)) = [jan 1, jan 2, jan 3]"
    by (auto simp: numeral_3_eq_3)
  with h show ?thesis by simp
qed

theorem renavigation_failure_is_not_fatal_witness:
  "navigations (trace (auto_fill_journals example_bot (jan 1) (jan 3) (ascii ''work'')
            (Some silent_progress) (Some never_stop) counters0)) =
     [Inr True, Inr False, Inl WebDriverException] \<and>
   map d_date (details (res (auto_fill_journals example_bot (jan 1) (jan 3) (ascii ''work'')
            (Some silent_progress) (Some never_stop) counters0))) = [jan 1, jan 2, jan 3] \<and>
   fills (trace (auto_fill_journals example_bot (jan 1) (jan 3) (ascii ''work'')
            (Some silent_progress) (Some never_stop) counters0)) =
     map (\<lambda>r. (d_date r, Inr (d_success r)))
       (details (res (auto_fill_journals example_bot (jan 1) (jan 3) (ascii ''work'')
            (Some silent_progress) (Some never_stop) counters0)))"
proof -
  let ?run = "auto_fill_journals example_bot (jan 1) (jan 3) (ascii ''work'')
            (Some silent_progress) (Some never_stop) counters0"
  have navs: "navigations (trace ?run) = [Inr True, Inr False, Inl WebDriverException]"
    by (simp add: run_defs jan_1_to_3)
  have login: "fst (bot_login example_bot counters0) = Inr True"
    by (simp add: example_bot_def scripted_bot_def)
  have nav: "fst (bot_navigate_to_journal example_bot (snd (bot_login example_bot counters0))) = Inr True"
    by (simp add: example_bot_def scripted_bot_def first_nav_only_def counters0_def)
  have ne: "[jan 1, jan 2, jan 3] \<noteq> []" by simp
  have delay: "0 \<le> bot_delay example_bot" "bot_delay example_bot \<le> 9223372036"
    by (simp_all add: example_bot_def scripted_bot_def)
  have fill: "\<forall>d c w'. \<exists>ok. fst (bot_fill_journal_entry example_bot d c w') = Inr ok"
    by (simp add: example_bot_def scripted_bot_def)
  have stop: "case Some never_stop of None \<Rightarrow> True | Some f \<Rightarrow> \<forall>w'. fst (f w') = Inr True"
    by (simp add: never_stop_def)
  have prog: "case Some silent_progress of None \<Rightarrow> True
              | Some f \<Rightarrow> \<forall>c t a b w'. fst (f c t a b w') = Inr ()"
    by (simp add: silent_progress_def)
  from renavigation_failure_is_not_fatal [OF login nav jan_1_to_3 ne delay fill stop prog,
      of "ascii ''work''"] navs
  show ?thesis by blast
qed

text \<open>
  A delay that \<open>time.sleep\<close> refuses ends the run after the first day: the day is
  recorded, the wait raises, and the other days are not submitted.
\<close>

lemma refused_delay_ends_run:
  "map d_date (details (res (auto_fill_journals
       (scripted_bot (Inr True) first_nav_only (\<lambda>k. Inr True) 100000000000000000000)
       (jan 1) (jan 3) (ascii ''work'') None None counters0))) = [jan 1] \<and>
   map d_date (details (res (auto_fill_journals
       (scripted_bot (Inr True) first_nav_only (\<lambda>k. Inr True) (- 1))
       (jan 1) (jan 3) (ascii ''work'') None None counters0))) = [jan 1]"
  by (simp add: run_defs jan_1_to_3)

section \<open>Properties of \<open>fill_journal_entry\<close> and of the link loop\<close>

lemmas flow_defs = ret_def call_def and_then_def on_exn_def or_return_False_def passing_def
  passing_faults_def

lemmas browser_defs = small_browser_def lookup_def

lemmas form_defs = fill_form_def enter_frames_def find_date_input_def
  type_into_def find_work_input_def find_school_select_def choose_school_def find_submit_btn_def
  log_inputs_def log_buttons_def get_attributes_def

subsection \<open>The result check\<close>

lemma check_result_iff:
  "check_result page \<longleftrightarrow>
     (\<exists>k \<in> set success_keywords. sublist k page) \<or> \<not> (\<exists>k \<in> set failure_keywords. sublist k page)"
  by (simp add: check_result_def list_ex_iff)

lemma fill_journal_entry_checked:
  assumes "fill_form drv sid date content b = (Go (), b1)"
    and "page_source drv b1 = (Inr page, b2)"
  shows "fill_journal_entry drv sid date content b = (check_result page, b2)"
  using assms by (simp add: fill_journal_entry_def and_then_def call_def ret_def)

text \<open>
  \<^bold>\<open>Claim C4\<close>. When the form was filled and submitted and the page that follows
  could be read, \<open>fill_journal_entry\<close> returns the classification of the text of that page:
  true when the text holds a marker of the first list, whatever else it holds; false when it
  holds none of the first list but one of the second; true when it holds none of either
  list. A day for which it returns true is recorded with the \<open>success\<close> counter going up
  by one and the \<open>failed\<close> counter unchanged.
\<close>

theorem result_check_classifies:
  assumes "fill_form drv sid date content b = (Go (), b1)"
    and "page_source drv b1 = (Inr page, b2)"
  shows "fill_journal_entry drv sid date content b = (check_result page, b2) \<and>
         ((\<exists>k \<in> set success_keywords. sublist k page) \<longrightarrow> check_result page) \<and>
         (\<not> (\<exists>k \<in> set success_keywords. sublist k page) \<and>
            (\<exists>k \<in> set failure_keywords. sublist k page) \<longrightarrow> \<not> check_result page) \<and>
         (\<not> (\<exists>k \<in> set success_keywords. sublist k page) \<and>
            \<not> (\<exists>k \<in> set failure_keywords. sublist k page) \<longrightarrow> check_result page) \<and>
         (check_result page \<longrightarrow>
            success (record_result r date content sid
                       (fst (fill_journal_entry drv sid date content b))) = success r + 1 \<and>
            failed (record_result r date content sid
                       (fst (fill_journal_entry drv sid date content b))) = failed r)"
proof -
  note run = fill_journal_entry_checked [OF assms]
  show ?thesis
  proof (intro conjI)
    show "fill_journal_entry drv sid date content b = (check_result page, b2)" by (rule run)
    show "(\<exists>k \<in> set success_keywords. sublist k page) \<longrightarrow> check_result page"
      by (simp add: check_result_iff)
    show "\<not> (\<exists>k \<in> set success_keywords. sublist k page) \<and>
            (\<exists>k \<in> set failure_keywords. sublist k page) \<longrightarrow> \<not> check_result page"
      by (simp add: check_result_iff)
    show "\<not> (\<exists>k \<in> set success_keywords. sublist k page) \<and>
            \<not> (\<exists>k \<in> set failure_keywords. sublist k page) \<longrightarrow> check_result page"
      by (simp add: check_result_iff)
    show "check_result page \<longrightarrow>
            success (record_result r date content sid
                       (fst (fill_journal_entry drv sid date content b))) = success r + 1 \<and>
            failed (record_result r date content sid
                       (fst (fill_journal_entry drv sid date content b))) = failed r"
      by (simp add: run)
  qed
qed

lemma jan_5_text: "formatted_date (jan 5) = ascii ''1130105''"
  by (simp add: formatted_date_def jan_def format_0d_2 format_0d_3_small ascii_def)

lemma jan_5_valid: "strptime (jan 5) = Inr (jan 5)"
  by (simp add: strptime_def valid_date_def MINYEAR_def MAXYEAR_def days_in_month_def jan_def)

text \<open>On the entry form of the small browser the form is filled and the button clicked.\<close>

lemma fill_form_entry_form:
  "fill_form small_browser (ascii ''A1'') (jan 5) (ascii ''work'') (entry_form after) =
     (Go (), (entry_form after)
               \<lparr>page_text := after,
                typed := [(Elem 1, ascii ''1130105''), (Elem 2, ascii ''work'')],
                clicked := [Elem 4]\<rparr>)"
  by (simp add: form_defs flow_defs browser_defs entry_form_def jan_5_text jan_5_valid ascii_def)

lemma saved_has_no_marker:
  "\<not> (\<exists>k \<in> set success_keywords. sublist k (ascii ''saved'')) \<and>
   \<not> (\<exists>k \<in> set failure_keywords. sublist k (ascii ''saved''))"
  by (simp add: success_keywords_def failure_keywords_def ascii_def sublist_Cons_right)

lemma both_markers:
  "(\<exists>k \<in> set success_keywords. sublist k (ascii ''success, error'')) \<and>
   (\<exists>k \<in> set failure_keywords. sublist k (ascii ''success, error''))"
proof
  have "sublist (ascii ''success'') (ascii ''success'' @ ascii '', error'')"
    by (rule sublist_append_rightI)
  then show "\<exists>k \<in> set success_keywords. sublist k (ascii ''success, error'')"
    by (simp add: success_keywords_def ascii_def)
  have "sublist (ascii ''error'') (ascii ''success, '' @ ascii ''error'')"
    by (rule sublist_append_leftI)
  then show "\<exists>k \<in> set failure_keywords. sublist k (ascii ''success, error'')"
    by (simp add: failure_keywords_def ascii_def)
qed

text \<open>
  As a method of a bot, \<open>fill_journal_entry\<close> returns a truth value and never raises:
  it meets what the theorem on the navigation between two days asks of the submission.
\<close>

lemma form_bot_fill_never_faults:
  "\<exists>ok. fst (bot_fill_journal_entry (form_bot drv sid) d c w) = Inr ok"
  by (cases "fill_journal_entry drv sid d c w") (simp add: form_bot_def)

lemma jan_5_to_5: "generate_dates (jan 5) (jan 5) = Inr [jan 5]"
  by (simp add: date_defs)

text \<open>
  A run over one day on the small browser, in which the page after the submission shows no
  marker of either list: the day is counted as a success.
\<close>

lemma unmarked_page_counts_as_success:
  "res (auto_fill_journals (form_bot small_browser (ascii ''A1'')) (jan 5) (jan 5) (ascii ''work'')
          None None (entry_form (ascii ''saved''))) =
     \<lparr>total = 1, success = 1, failed = 0,
      details = [\<lparr>d_date = jan 5, d_content = ascii ''work'', d_school_id = ascii ''A1'',
                  d_success = True\<rparr>]\<rparr>"
proof -
  let ?after = "(entry_form (ascii ''saved''))\<lparr>page_text := ascii ''saved'',
      typed := [(Elem 1, ascii ''1130105''), (Elem 2, ascii ''work'')], clicked := [Elem 4]\<rparr>"
  have src: "page_source small_browser ?after = (Inr (ascii ''saved''), ?after)"
    by (simp add: small_browser_def)
  have "check_result (ascii ''saved'')"
    using saved_has_no_marker by (simp add: check_result_iff)
  with fill_journal_entry_checked [OF fill_form_entry_form src]
  have f: "fill_journal_entry small_browser (ascii ''A1'') (jan 5) (ascii ''work'')
             (entry_form (ascii ''saved'')) = (True, ?after)"
    by simp
  have c: "strip (ascii ''work'') = ascii ''work''"
    by (simp add: strip_def ascii_def isspace_def)
  show ?thesis
    by (simp add: auto_fill_journals_def try_block_def process_date_def check_stop_def
        emit_progress_def record_result_def renavigate_def generate_content_def form_bot_def
        jan_5_to_5 f c Let_def)
qed

theorem result_check_classifies_witness:
  "fst (fill_journal_entry small_browser (ascii ''A1'') (jan 5) (ascii ''work'')
          (entry_form (ascii ''saved''))) \<and>
   \<not> (\<exists>k \<in> set success_keywords. sublist k (ascii ''saved'')) \<and>
   \<not> (\<exists>k \<in> set failure_keywords. sublist k (ascii ''saved'')) \<and>
   fst (fill_journal_entry small_browser (ascii ''A1'') (jan 5) (ascii ''work'')
          (entry_form (ascii ''success, error''))) \<and>
   (\<exists>k \<in> set success_keywords. sublist k (ascii ''success, error'')) \<and>
   (\<exists>k \<in> set failure_keywords. sublist k (ascii ''success, error''))"
proof -
  let ?after = "\<lambda>t. (entry_form t)\<lparr>page_text := t,
      typed := [(Elem 1, ascii ''1130105''), (Elem 2, ascii ''work'')], clicked := [Elem 4]\<rparr>"
  have src: "page_source small_browser (?after t) = (Inr t, ?after t)" for t
    by (simp add: small_browser_def)
  note a = result_check_classifies [OF fill_form_entry_form src, of "ascii ''saved''"]
  note b = result_check_classifies [OF fill_form_entry_form src, of "ascii ''success, error''"]
  from a saved_has_no_marker
  have "fst (fill_journal_entry small_browser (ascii ''A1'') (jan 5) (ascii ''work'')
          (entry_form (ascii ''saved'')))"
    by (metis fst_conv)
  moreover from b both_markers
  have "fst (fill_journal_entry small_browser (ascii ''A1'') (jan 5) (ascii ''work'')
          (entry_form (ascii ''success, error'')))"
    by (metis fst_conv)
  ultimately show ?thesis using saved_has_no_marker both_markers by blast
qed

subsection \<open>Candidates in their order\<close>

lemma find_date_input_first:
  assumes split: "date_candidates = pre @ (kind, sel) # post"
    and pre: "all_time_out (wait_presence drv) pre b = Some b1"
    and found: "wait_presence drv kind sel b1 = (Inr e, b2)"
  shows "find_date_input drv b = (Go e, b2)"
proof -
  let ?c1 = "(By_ID, ascii ''date'')"
  let ?c2 = "(By_NAME, ascii ''date'')"
  let ?c3 = "(By_CSS_SELECTOR, placeholder_selector)"
  from split consider
      (first) "pre = []" "(kind, sel) = ?c1"
    | (second) "pre = [?c1]" "(kind, sel) = ?c2"
    | (third) "pre = [?c1, ?c2]" "(kind, sel) = ?c3"
    by (auto simp: date_candidates_def Cons_eq_append_conv)
  then show ?thesis
  proof cases
    case first
    with pre found show ?thesis
      by (simp add: find_date_input_def on_exn_def call_def)
  next
    case second
    with pre found show ?thesis
      by (auto simp: find_date_input_def on_exn_def call_def split: prod.splits sum.splits if_splits)
  next
    case third
    with pre found show ?thesis
      by (auto simp: find_date_input_def on_exn_def call_def split: prod.splits sum.splits if_splits)
  qed
qed

lemma find_date_input_Return:
  assumes "find_date_input drv b = (Return r, b')"
  shows "\<not> r \<and> (\<exists>b3. all_time_out (wait_presence drv) date_candidates b = Some b3)"
proof -
  obtain r1 b1 where w1: "wait_presence drv By_ID (ascii ''date'') b = (r1, b1)"
    by (cases "wait_presence drv By_ID (ascii ''date'') b")
  obtain r2 b2 where w2: "wait_presence drv By_NAME (ascii ''date'') b1 = (r2, b2)"
    by (cases "wait_presence drv By_NAME (ascii ''date'') b1")
  obtain r3 b3 where w3: "wait_presence drv By_CSS_SELECTOR placeholder_selector b2 = (r3, b3)"
    by (cases "wait_presence drv By_CSS_SELECTOR placeholder_selector b2")
  from assms w1 have t1: "r1 = Inl TimeoutException"
    by (cases r1) (auto simp: find_date_input_def on_exn_def call_def split: if_splits)
  from assms w1 w2 t1 have t2: "r2 = Inl TimeoutException"
    by (cases r2) (auto simp: find_date_input_def on_exn_def call_def split: if_splits)
  from assms w1 w2 w3 t1 t2 have t3: "r3 = Inl TimeoutException"
    by (cases r3) (auto simp: find_date_input_def on_exn_def call_def split: if_splits)
  from assms w1 w2 w3 t1 t2 t3 have "\<not> r"
    by (auto simp: find_date_input_def on_exn_def call_def and_then_def log_inputs_def passing_def)
  moreover from w1 w2 w3 t1 t2 t3
  have "all_time_out (wait_presence drv) date_candidates b = Some b3"
    by (simp add: date_candidates_def)
  ultimately show ?thesis by blast
qed

lemma click_links_skip:
  assumes "all_time_out (wait_clickable drv) (map (Pair By_XPATH) skipped) b = Some b1"
  shows "click_links drv (skipped @ rest) b = click_links drv rest b1"
  using assms
proof (induction skipped arbitrary: b)
  case Nil
  then show ?case by simp
next
  case (Cons s ss)
  obtain r b' where w: "wait_clickable drv By_XPATH s b = (r, b')"
    by (cases "wait_clickable drv By_XPATH s b")
  with Cons.prems have r: "r = Inl TimeoutException"
    and rest: "all_time_out (wait_clickable drv) (map (Pair By_XPATH) ss) b' = Some b1"
    by (auto split: sum.splits if_splits)
  from w r have "click_links drv ((s # ss) @ rest) b = click_links drv (ss @ rest) b'"
    by (simp add: and_then_def call_def)
  with Cons.IH [OF rest] show ?case by simp
qed

lemma click_links_found:
  assumes "wait_clickable drv By_XPATH sel b1 = (Inr link, b2)"
  shows "click_links drv (sel # later) b1 =
           (case click_and_check drv link b2 of
              (Go True, b3) \<Rightarrow> (Return True, b3)
            | (Go False, b3) \<Rightarrow> click_links drv later b3
            | (Return r, b3) \<Rightarrow> (Return r, b3)
            | (Raise e, b3) \<Rightarrow>
                if e = TimeoutException \<or> e = NoSuchElementException
                then click_links drv later b3 else (Raise e, b3))"
  using assms by (simp add: and_then_def call_def)

text \<open>
  \<^bold>\<open>Claim C9\<close>, as amended. For the date field: when the candidates before one
  of the three have each timed out and that one finds an element, the lookup yields this
  element, whatever the candidates after it would find; and the method returns from the
  lookup (with false) only when all three candidates have timed out. For the link loop: when
  the selectors before one have each timed out and that one finds a link, this link is
  clicked first; the loop returns true if the marks of the journal page follow, and if they
  do not it goes on with the selectors after it.
\<close>

theorem first_resolving_candidate:
  "(date_candidates = pre @ (kind, sel) # post \<and>
    all_time_out (wait_presence drv) pre b = Some b1 \<and>
    wait_presence drv kind sel b1 = (Inr e, b2) \<longrightarrow>
      find_date_input drv b = (Go e, b2)) \<and>
   (find_date_input drv b = (Return r, b') \<longrightarrow>
      \<not> r \<and> (\<exists>b3. all_time_out (wait_presence drv) date_candidates b = Some b3)) \<and>
   (all_time_out (wait_clickable drv) (map (Pair By_XPATH) skipped) c = Some c1 \<and>
    wait_clickable drv By_XPATH selector c1 = (Inr link, c2) \<longrightarrow>
      click_links drv (skipped @ selector # later) c =
        (case click_and_check drv link c2 of
           (Go True, c3) \<Rightarrow> (Return True, c3)
         | (Go False, c3) \<Rightarrow> click_links drv later c3
         | (Return r, c3) \<Rightarrow> (Return r, c3)
         | (Raise e, c3) \<Rightarrow>
             if e = TimeoutException \<or> e = NoSuchElementException
             then click_links drv later c3 else (Raise e, c3)))"
proof (intro conjI impI)
  assume "date_candidates = pre @ (kind, sel) # post \<and>
    all_time_out (wait_presence drv) pre b = Some b1 \<and>
    wait_presence drv kind sel b1 = (Inr e, b2)"
  then have s: "date_candidates = pre @ (kind, sel) # post"
    and p: "all_time_out (wait_presence drv) pre b = Some b1"
    and f: "wait_presence drv kind sel b1 = (Inr e, b2)"
    by (rule conjunct1, rule conjunct2 [THEN conjunct1], rule conjunct2 [THEN conjunct2])
  show "find_date_input drv b = (Go e, b2)"
    by (rule find_date_input_first [OF s p f])
next
  assume "find_date_input drv b = (Return r, b')"
  from find_date_input_Return [OF this]
  show "\<not> r" and "\<exists>b3. all_time_out (wait_presence drv) date_candidates b = Some b3"
    by blast+
next
  assume a: "all_time_out (wait_clickable drv) (map (Pair By_XPATH) skipped) c = Some c1 \<and>
    wait_clickable drv By_XPATH selector c1 = (Inr link, c2)"
  then have "click_links drv (skipped @ selector # later) c = click_links drv (selector # later) c1"
    by (simp add: click_links_skip)
  with a show "click_links drv (skipped @ selector # later) c =
        (case click_and_check drv link c2 of
           (Go True, c3) \<Rightarrow> (Return True, c3)
         | (Go False, c3) \<Rightarrow> click_links drv later c3
         | (Return r, c3) \<Rightarrow> (Return r, c3)
         | (Raise e, c3) \<Rightarrow>
             if e = TimeoutException \<or> e = NoSuchElementException
             then click_links drv later c3 else (Raise e, c3))"
    by (simp only: click_links_found)
qed

text \<open>
  On the form without the identifier, the first candidate is absent and the second and the
  third are present: the field of the second is the result.
\<close>

theorem first_resolving_candidate_witness:
  "date_candidates = [(By_ID, ascii ''date'')] @ (By_NAME, ascii ''date'') #
                     [(By_CSS_SELECTOR, placeholder_selector)] \<and>
   all_time_out (wait_presence small_browser) [(By_ID, ascii ''date'')] form_without_id =
     Some form_without_id \<and>
   wait_presence small_browser By_NAME (ascii ''date'') form_without_id =
     (Inr (Elem 7), form_without_id) \<and>
   wait_presence small_browser By_CSS_SELECTOR placeholder_selector form_without_id =
     (Inr (Elem 8), form_without_id) \<and>
   find_date_input small_browser form_without_id = (Go (Elem 7), form_without_id)"
proof -
  have s: "date_candidates = [(By_ID, ascii ''date'')] @ (By_NAME, ascii ''date'') #
                     [(By_CSS_SELECTOR, placeholder_selector)]"
    by (simp add: date_candidates_def)
  have a: "all_time_out (wait_presence small_browser) [(By_ID, ascii ''date'')] form_without_id =
     Some form_without_id"
    by (simp add: browser_defs form_without_id_def)
  have f: "wait_presence small_browser By_NAME (ascii ''date'') form_without_id =
     (Inr (Elem 7), form_without_id)"
    by (simp add: browser_defs form_without_id_def)
  have g: "wait_presence small_browser By_CSS_SELECTOR placeholder_selector form_without_id =
     (Inr (Elem 8), form_without_id)"
    by (simp add: browser_defs form_without_id_def)
  note found = conjI [OF a f]
  note hyps = conjI [OF s found]
  from first_resolving_candidate [THEN conjunct1, rule_format, OF hyps]
  have "find_date_input small_browser form_without_id = (Go (Elem 7), form_without_id)" .
  with s a f g show ?thesis by simp
qed

text \<open>
  On the menu page the first selector of the code finds nothing and the second and the
  third each find a link. The loop clicks the link of the second, does not see the journal
  page, and clicks the link of the third, which is the one that makes it return true.
\<close>

theorem later_link_clicked_counterexample:
  "take 3 journal_selectors = [xpath_text ''//'' journal_name, xpath_text ''//'' [26085, 35468], xpath_href] \<and>
   fst (wait_clickable small_browser By_XPATH (xpath_text ''//'' journal_name) menu_page) =
     Inl TimeoutException \<and>
   fst (wait_clickable small_browser By_XPATH (xpath_text ''//'' [26085, 35468]) menu_page) =
     Inr (Elem 1) \<and>
   fst (wait_clickable small_browser By_XPATH xpath_href menu_page) = Inr (Elem 2) \<and>
   fst (navigate_by_link small_browser menu_page) = Return True \<and>
   clicked (snd (navigate_by_link small_browser menu_page)) = [Elem 1, Elem 2] \<and>
   last (clicked (snd (navigate_by_link small_browser menu_page))) \<noteq> Elem 1"
  by (simp add: navigate_by_link_def flow_defs browser_defs click_and_check_def menu_page_def
      journal_selectors_def xpath_text_def xpath_href_def journal_name_def ascii_def
      sublist_Cons_right)


end
